theory Spec2Isabelle
  imports Complex_Main "HOL-Library.Word" "HOL-Library.Log_Nat"
begin

section \<open>Machine numbers\<close>

text \<open>
  Go's \<open>int32\<close> and \<open>int64\<close> are words with wrap-around arithmetic, read as two's
  complement by \<open>sint\<close>. Go's \<open>int\<close> is taken at its 64-bit width. \<open>time.Duration\<close>
  is an \<open>int64\<close> count of nanoseconds.
\<close>

type_synonym int32 = "32 word"
type_synonym int64 = "64 word"

text \<open>
  A \<open>float32\<close> is either a finite value, an infinity or a NaN. Finite values are
  kept as the rational they denote; every arithmetic operation rounds its exact
  result to the nearest value with a 24-bit significand (ties to even), gradual
  underflow below \<open>2^-126\<close> and overflow to infinity from \<open>2^128\<close>. The sign of a
  zero is not tracked: it is observable only through a division by zero, and the
  infinity produced there is converted to an integer the same way for both signs.
\<close>

datatype float32 = Fin rat | PInf | NInf | NaN

definition round_even :: "rat \<Rightarrow> int" where
  "round_even x =
     (let f = \<lfloor>x\<rfloor>; r = x - of_int f in
      if r < 1 / 2 then f
      else if 1 / 2 < r then f + 1
      else if even f then f else f + 1)"

text \<open>\<open>ilog2 x\<close> is the integer \<open>k\<close> with \<open>2^k \<le> x < 2^(k+1)\<close>, for positive \<open>x\<close>.\<close>

definition ilog2 :: "rat \<Rightarrow> int" where
  "ilog2 x = (if 1 \<le> x then bitlen \<lfloor>x\<rfloor> - 1 else - bitlen (\<lceil>1 / x\<rceil> - 1))"

definition pow2 :: "int \<Rightarrow> rat" where
  "pow2 e = (if 0 \<le> e then 2 ^ nat e else 1 / 2 ^ nat (- e))"

definition f32_round :: "rat \<Rightarrow> float32" where
  "f32_round x =
     (if x = 0 then Fin 0
      else
        let e = max (ilog2 \<bar>x\<bar> - 23) (- 149);
            y = of_int (round_even (x / pow2 e)) * pow2 e
        in if 2 ^ 128 \<le> y then PInf
           else if y \<le> - (2 ^ 128) then NInf
           else Fin y)"

fun f32_negative :: "float32 \<Rightarrow> bool" where
  "f32_negative (Fin a) = (a < 0)"
| "f32_negative NInf = True"
| "f32_negative PInf = False"
| "f32_negative NaN = False"

definition f32_of_int :: "int \<Rightarrow> float32" where
  "f32_of_int n = f32_round (of_int n)"

definition f32_mul :: "float32 \<Rightarrow> float32 \<Rightarrow> float32" where
  "f32_mul x y =
     (case (x, y) of
        (Fin a, Fin b) \<Rightarrow> f32_round (a * b)
      | _ \<Rightarrow>
          if x = NaN \<or> y = NaN \<or> x = Fin 0 \<or> y = Fin 0 then NaN
          else if f32_negative x = f32_negative y then PInf else NInf)"

definition f32_div :: "float32 \<Rightarrow> float32 \<Rightarrow> float32" where
  "f32_div x y =
     (case (x, y) of
        (Fin a, Fin b) \<Rightarrow>
          if b = 0 then (if a = 0 then NaN else if 0 < a then PInf else NInf)
          else f32_round (a / b)
      | (Fin a, PInf) \<Rightarrow> Fin 0
      | (Fin a, NInf) \<Rightarrow> Fin 0
      | (PInf, Fin b) \<Rightarrow> if b < 0 then NInf else PInf
      | (NInf, Fin b) \<Rightarrow> if b < 0 then PInf else NInf
      | _ \<Rightarrow> NaN)"

definition trunc :: "rat \<Rightarrow> int" where
  "trunc a = (if 0 \<le> a then \<lfloor>a\<rfloor> else \<lceil>a\<rceil>)"

text \<open>
  Converting a float to an integer truncates towards zero. Go leaves the result
  open when the value does not fit (or is not finite); the model takes what the
  amd64 conversion instructions deliver there, the most negative integer.
\<close>

definition f32_to_int64 :: "float32 \<Rightarrow> int64" where
  "f32_to_int64 x =
     (case x of
        Fin a \<Rightarrow>
          if - (2 ^ 63) \<le> trunc a \<and> trunc a < 2 ^ 63 then word_of_int (trunc a)
          else word_of_int (- (2 ^ 63))
      | _ \<Rightarrow> word_of_int (- (2 ^ 63)))"

definition f32_to_int32 :: "float32 \<Rightarrow> int32" where
  "f32_to_int32 x =
     (case x of
        Fin a \<Rightarrow>
          if - (2 ^ 31) \<le> trunc a \<and> trunc a < 2 ^ 31 then word_of_int (trunc a)
          else word_of_int (- (2 ^ 31))
      | _ \<Rightarrow> word_of_int (- (2 ^ 31)))"

definition Second :: int64 where
  "Second = 1000000000"

section \<open>Wire messages\<close>

text \<open>
  The protocol buffer message \<open>RecordRequest\<close> of \<open>service.proto\<close>: an optional
  header and a packed sequence of samples.
\<close>

record RecordRequest_Header =
  NumChannels :: int32
  SampleRate :: float32

record RecordRequest =
  Header :: "RecordRequest_Header option"
  Sample :: "float32 list"

text \<open>
  Modelled from the spec: the accessors \<open>GetHeader\<close>, \<open>GetNumChannels\<close>,
  \<open>GetSampleRate\<close> and \<open>GetSample\<close> that are generated from \<open>service.proto\<close> into
  the package \<open>common/service\<close>, which is not among the sources. The first
  message is read for "the header fields present in that message": an absent
  header gives the zero value of each field, as generated accessors do on a nil
  message. \<open>GetHeader\<close> and \<open>GetSample\<close> are the fields \<open>Header\<close> and \<open>Sample\<close>.
\<close>

definition GetNumChannels :: "RecordRequest_Header option \<Rightarrow> int32" where
  "GetNumChannels h = (case h of None \<Rightarrow> 0 | Some x \<Rightarrow> NumChannels x)"

definition GetSampleRate :: "RecordRequest_Header option \<Rightarrow> float32" where
  "GetSampleRate h = (case h of None \<Rightarrow> Fin 0 | Some x \<Rightarrow> SampleRate x)"

datatype error = RecordFailed | SendFailed | CloseSendFailed
  | OpenFailed | WriteFramesFailed | CloseFailed

section \<open>The transport, seen from the client\<close>

text \<open>
  Modelled from the spec: the transport (\<open>service.RecorderClient\<close> and
  \<open>service.Recorder_RecordClient\<close>, generated into \<open>common/service\<close> and not among
  the sources): an ordered message channel with \<open>Open() \<rightarrow> Channel | error\<close>,
  \<open>Channel.Send(Message) \<rightarrow> error\<close> and \<open>Channel.CloseSend() \<rightarrow> error\<close>, each of
  which can fail. What the transport did is recorded in a \<open>transport\<close> value:
  for every stream that \<open>client.Record\<close> delivered, in the order of opening, the
  messages handed to \<open>Send\<close> and the calls of \<open>CloseSend\<close>, each with its outcome.
  A stream handle is the index of the stream in that list. Which calls fail is
  the choice of the environment: the \<open>k\<close>-th call of \<open>client.Record\<close>, the \<open>k\<close>-th
  \<open>Send\<close> on stream \<open>s\<close> and the \<open>k\<close>-th \<open>CloseSend\<close> on stream \<open>s\<close> each fail when
  the environment says so. A failing \<open>client.Record\<close> returns its error and no
  stream (a nil stream), as the fake client of the tests does.
\<close>

record clientStream =
  sent :: "(RecordRequest \<times> bool) list"
  closeSends :: "bool list"

record transport =
  streams :: "clientStream list"
  failedRecords :: nat

record env =
  recordFails :: "nat \<Rightarrow> bool"
  sendFails :: "nat \<Rightarrow> nat \<Rightarrow> bool"
  closeSendFails :: "nat \<Rightarrow> nat \<Rightarrow> bool"

definition noTransport :: transport where
  "noTransport = \<lparr>streams = [], failedRecords = 0\<rparr>"

definition clientRecord :: "env \<Rightarrow> transport \<Rightarrow> (error + nat) \<times> transport" where
  "clientRecord e t =
     (if recordFails e (length (streams t) + failedRecords t)
      then (Inl RecordFailed, t\<lparr>failedRecords := Suc (failedRecords t)\<rparr>)
      else (Inr (length (streams t)),
            t\<lparr>streams := streams t @ [\<lparr>sent = [], closeSends = []\<rparr>]\<rparr>))"

definition Send :: "env \<Rightarrow> nat \<Rightarrow> RecordRequest \<Rightarrow> transport \<Rightarrow> error option \<times> transport" where
  "Send e s req t =
     (let st = streams t ! s;
          ok = \<not> sendFails e s (length (sent st))
      in (if ok then None else Some SendFailed,
          t\<lparr>streams := (streams t)[s := st\<lparr>sent := sent st @ [(req, ok)]\<rparr>]\<rparr>))"

definition CloseSend :: "env \<Rightarrow> nat \<Rightarrow> transport \<Rightarrow> error option \<times> transport" where
  "CloseSend e s t =
     (let st = streams t ! s;
          ok = \<not> closeSendFails e s (length (closeSends st))
      in (if ok then None else Some CloseSendFailed,
          t\<lparr>streams := (streams t)[s := st\<lparr>closeSends := closeSends st @ [ok]\<rparr>]\<rparr>))"

section \<open>The recorder\<close>

record R =
  currentStream :: "nat option"
  currentFrames :: int64
  numChannels :: int32
  sampleRate :: float32
  maxLength :: int64

definition New :: "int64 \<Rightarrow> int32 \<Rightarrow> float32 \<Rightarrow> R" where
  "New maxLength' numChannels' sampleRate' =
     \<lparr>currentStream = None, currentFrames = 0, numChannels = numChannels',
      sampleRate = sampleRate', maxLength = maxLength'\<rparr>"

definition closeCurrentStream :: "env \<Rightarrow> R \<times> transport \<Rightarrow> error option \<times> R \<times> transport" where
  "closeCurrentStream e = (\<lambda>(r, t).
     let r1 = r\<lparr>currentFrames := 0\<rparr> in
     case currentStream r1 of
       None \<Rightarrow> (None, r1, t)
     | Some s \<Rightarrow> (case CloseSend e s t of (err, t1) \<Rightarrow> (err, r1, t1)))"

definition Close :: "env \<Rightarrow> R \<times> transport \<Rightarrow> error option \<times> R \<times> transport" where
  "Close e = closeCurrentStream e"

definition headerRequest :: "R \<Rightarrow> RecordRequest" where
  "headerRequest r =
     \<lparr>Header = Some \<lparr>NumChannels = numChannels r, SampleRate = sampleRate r\<rparr>, Sample = []\<rparr>"

definition testAndCloseStream ::
  "env \<Rightarrow> int64 \<Rightarrow> R \<times> transport \<Rightarrow> error option \<times> R \<times> transport" where
  "testAndCloseStream e d = (\<lambda>(r, t).
     if currentStream r \<noteq> None \<and> sint d \<le> sint (maxLength r) then (None, r, t)
     else
       (case closeCurrentStream e (r, t) of (_, r1, t1) \<Rightarrow>
          (case clientRecord e t1 of
             (Inl err, t2) \<Rightarrow> (Some err, r1\<lparr>currentStream := None\<rparr>, t2)
           | (Inr s, t2) \<Rightarrow>
               (case Send e s (headerRequest r1) t2 of
                  (err, t3) \<Rightarrow> (err, r1\<lparr>currentStream := Some s\<rparr>, t3)))))"

text \<open>
  \<open>projected dv frames\<close> is the duration \<open>d\<close> that the callback computes from the
  total \<open>r.currentFrames + lin\<close>: the quotient in \<open>float32\<close>, cut to whole
  seconds by the conversion to \<open>time.Duration\<close>, times \<open>time.Second\<close>.
\<close>

definition divisor :: "R \<Rightarrow> float32" where
  "divisor r = f32_mul (sampleRate r) (f32_of_int (sint (numChannels r)))"

definition projected :: "float32 \<Rightarrow> int64 \<Rightarrow> int64" where
  "projected dv frames = f32_to_int64 (f32_div (f32_of_int (sint frames)) dv) * Second"

text \<open>
  The callback returned by \<open>Process\<close>. The divisor is computed once, when \<open>Process\<close>
  is called. When \<open>testAndCloseStream\<close> returns no error the recorder holds a
  stream (lemma \<open>testAndCloseStream_holds\<close> below), so the last case is never
  taken; there the Go code would call \<open>Send\<close> on a nil stream.
\<close>

definition callback :: "env \<Rightarrow> float32 \<Rightarrow> float32 list \<Rightarrow> R \<times> transport \<Rightarrow> R \<times> transport" where
  "callback e dv inp = (\<lambda>(r, t).
     let lin = of_nat (length inp);
         d = projected dv (currentFrames r + lin)
     in (case testAndCloseStream e d (r, t) of
          (Some err, r1, t1) \<Rightarrow> (r1, t1)
        | (None, r1, t1) \<Rightarrow>
            (let r2 = r1\<lparr>currentFrames := currentFrames r1 + lin\<rparr> in
             (case currentStream r2 of
                Some s \<Rightarrow>
                  (case Send e s \<lparr>Header = None, Sample = inp\<rparr> t1 of (_, t2) \<Rightarrow> (r2, t2))
              | None \<Rightarrow> (r2, t1)))))"

definition Process :: "env \<Rightarrow> R \<Rightarrow> float32 list \<Rightarrow> R \<times> transport \<Rightarrow> R \<times> transport" where
  "Process e r = (let dv = divisor r in callback e dv)"

text \<open>
  A run of the recorder, as in \<open>TestRecorder\<close> and in the client's \<open>main\<close>:
  \<open>Process\<close> is called once on the new recorder, then the capture source
  delivers buffers to the callback it returned and the owner may call \<open>Close\<close>,
  one call after the other.
\<close>

datatype call = Buffer "float32 list" | CloseCall

definition run :: "env \<Rightarrow> R \<Rightarrow> call list \<Rightarrow> R \<times> transport" where
  "run e r cs =
     (let cb = Process e r in
      foldl (\<lambda>st c. case c of Buffer b \<Rightarrow> cb b st | CloseCall \<Rightarrow> snd (Close e st))
        (r, noTransport) cs)"

text \<open>One call of a run, with the divisor that \<open>Process\<close> has computed.\<close>

fun perform :: "env \<Rightarrow> float32 \<Rightarrow> R \<times> transport \<Rightarrow> call \<Rightarrow> R \<times> transport" where
  "perform e dv st (Buffer b) = callback e dv b st"
| "perform e dv st CloseCall = snd (Close e st)"

definition feed :: "env \<Rightarrow> R \<Rightarrow> float32 list list \<Rightarrow> R \<times> transport" where
  "feed e r bufs = run e r (map Buffer bufs)"

subsection \<open>What a run leaves on the transport\<close>

text \<open>
  \<open>log t\<close> lists, stream by stream, the messages handed to \<open>Send\<close> with their
  outcomes; \<open>closes t\<close> lists the outcomes of the \<open>CloseSend\<close> calls.
  \<open>requests\<close> forgets the outcomes, \<open>delivered\<close> keeps the messages whose \<open>Send\<close>
  succeeded, and \<open>payload\<close> is the concatenation, over all streams in the order of
  opening, of the samples of the delivered messages that carry no header.
\<close>

definition log :: "transport \<Rightarrow> (RecordRequest \<times> bool) list list" where
  "log t = map sent (streams t)"

definition closes :: "transport \<Rightarrow> bool list list" where
  "closes t = map closeSends (streams t)"

definition requests :: "(RecordRequest \<times> bool) list \<Rightarrow> RecordRequest list" where
  "requests l = map fst l"

definition delivered :: "(RecordRequest \<times> bool) list \<Rightarrow> RecordRequest list" where
  "delivered l = map fst (filter snd l)"

definition samplesOf :: "RecordRequest list \<Rightarrow> float32 list" where
  "samplesOf ms = concat (map Sample (filter (\<lambda>m. Header m = None) ms))"

definition payload :: "(RecordRequest \<times> bool) list list \<Rightarrow> float32 list" where
  "payload ls = concat (map (\<lambda>l. samplesOf (delivered l)) ls)"

fun headerFirst :: "RecordRequest list \<Rightarrow> bool" where
  "headerFirst [] = False"
| "headerFirst (m # ms) = (Header m \<noteq> None \<and> list_all (\<lambda>x. Header x = None) ms)"

definition sampleRequest :: "float32 list \<Rightarrow> RecordRequest" where
  "sampleRequest b = \<lparr>Header = None, Sample = b\<rparr>"

text \<open>The rotation decision of \<open>testAndCloseStream\<close>, for the buffer \<open>b\<close>.\<close>

definition rotates :: "float32 \<Rightarrow> R \<Rightarrow> float32 list \<Rightarrow> bool" where
  "rotates dv r b \<longleftrightarrow>
     currentStream r = None
     \<or> sint (maxLength r) < sint (projected dv (currentFrames r + of_nat (length b)))"

text \<open>A recorder that holds a stream holds the one opened last.\<close>

definition holdsLast :: "R \<times> transport \<Rightarrow> bool" where
  "holdsLast = (\<lambda>(r, t).
     case currentStream r of None \<Rightarrow> True | Some s \<Rightarrow> Suc s = length (streams t))"

fun buffersOf :: "call list \<Rightarrow> float32 list list" where
  "buffersOf [] = []"
| "buffersOf (Buffer b # cs) = b # buffersOf cs"
| "buffersOf (CloseCall # cs) = buffersOf cs"

definition allSucceed :: "env \<Rightarrow> bool" where
  "allSucceed e \<longleftrightarrow> (\<forall>k. \<not> recordFails e k) \<and> (\<forall>s k. \<not> sendFails e s k)"

definition reliable :: env where
  "reliable = \<lparr>recordFails = (\<lambda>k. False), sendFails = (\<lambda>s k. False),
     closeSendFails = (\<lambda>s k. False)\<rparr>"

section \<open>The server\<close>

text \<open>
  Modelled from the spec: the file writer (the sound file library behind
  \<open>sndfile.Open\<close>, \<open>WriteFrames\<close> and \<open>Close\<close>, which is not among the sources):
  an external sink that accepts a configuration and successive blocks of samples
  and owns the file, each call of which can fail. A \<open>disk\<close> value records every
  call of \<open>sndfile.Open\<close> with its outcome and, for every file that was
  created, the calls of \<open>WriteFrames\<close> and \<open>Close\<close> with theirs. A file handle
  is the index of the file among the created ones. The environment chooses the
  outcomes and the time stamps read from the clock. A file name is kept as the
  three arguments that \<open>newRecording\<close> hands to \<open>Sprintf\<close>: the prefix, the
  formatted time and the sequence number.
\<close>

record Info =
  Channels :: int32
  Samplerate :: int32
  Format :: nat

record fileName =
  namePrefix :: string
  nameStamp :: string
  nameSeq :: int64

record sndFile =
  name :: fileName
  info :: Info
  writes :: "(float32 list \<times> bool) list"
  closings :: "bool list"

record disk =
  opens :: "(fileName \<times> Info \<times> bool) list"
  files :: "sndFile list"

record fsEnv =
  now :: "nat \<Rightarrow> string"
  openFails :: "nat \<Rightarrow> bool"
  writeFails :: "nat \<Rightarrow> nat \<Rightarrow> bool"
  closeFails :: "nat \<Rightarrow> nat \<Rightarrow> bool"

definition noDisk :: disk where
  "noDisk = \<lparr>opens = [], files = []\<rparr>"

text \<open>
  The format constants of the library; their bits are disjoint, so the
  \<open>SF_FORMAT_WAV | SF_FORMAT_PCM_16\<close> of \<open>newRecording\<close> is their sum.
\<close>

definition SF_FORMAT_WAV :: nat where
  "SF_FORMAT_WAV = 65536"

definition SF_FORMAT_PCM_16 :: nat where
  "SF_FORMAT_PCM_16 = 2"

definition sndfileOpen :: "fsEnv \<Rightarrow> fileName \<Rightarrow> Info \<Rightarrow> disk \<Rightarrow> (error + nat) \<times> disk" where
  "sndfileOpen e nm sfi fs =
     (if openFails e (length (opens fs))
      then (Inl OpenFailed, fs\<lparr>opens := opens fs @ [(nm, sfi, False)]\<rparr>)
      else (Inr (length (files fs)),
            fs\<lparr>opens := opens fs @ [(nm, sfi, True)],
               files := files fs @ [\<lparr>name = nm, info = sfi, writes = [], closings = []\<rparr>]\<rparr>))"

definition WriteFrames :: "fsEnv \<Rightarrow> nat \<Rightarrow> float32 list \<Rightarrow> disk \<Rightarrow> error option \<times> disk" where
  "WriteFrames e f smp fs =
     (let fl = files fs ! f;
          ok = \<not> writeFails e f (length (writes fl))
      in (if ok then None else Some WriteFramesFailed,
          fs\<lparr>files := (files fs)[f := fl\<lparr>writes := writes fl @ [(smp, ok)]\<rparr>]\<rparr>))"

definition sndfileClose :: "fsEnv \<Rightarrow> nat \<Rightarrow> disk \<Rightarrow> error option \<times> disk" where
  "sndfileClose e f fs =
     (let fl = files fs ! f;
          ok = \<not> closeFails e f (length (closings fl))
      in (if ok then None else Some CloseFailed,
          fs\<lparr>files := (files fs)[f := fl\<lparr>closings := closings fl @ [ok]\<rparr>]\<rparr>))"

record server =
  prefix :: string
  numClients :: int64

definition newRecording ::
  "fsEnv \<Rightarrow> int32 \<Rightarrow> int32 \<Rightarrow> server \<times> disk \<Rightarrow> (error + nat) \<times> server \<times> disk" where
  "newRecording e numChannels' sampleRate' = (\<lambda>(s, fs).
     let sfi = \<lparr>Channels = numChannels', Samplerate = sampleRate',
                  Format = SF_FORMAT_WAV + SF_FORMAT_PCM_16\<rparr>;
         nm = \<lparr>namePrefix = prefix s, nameStamp = now e (length (opens fs)),
                 nameSeq = numClients s\<rparr>
     in (case sndfileOpen e nm sfi fs of
           (out, fs1) \<Rightarrow> (out, s\<lparr>numClients := numClients s + 1\<rparr>, fs1)))"

text \<open>
  The receive loop of \<open>Record\<close>. The stream delivers the messages \<open>ms\<close> and then
  an error (the end of the stream or a transport failure), which ends the loop.
  The result carries the error returned, and the file whose \<open>Close\<close> has been
  deferred, if any.
\<close>

fun recvLoop ::
  "fsEnv \<Rightarrow> RecordRequest list \<Rightarrow> nat option \<Rightarrow> server \<times> disk
     \<Rightarrow> error option \<times> nat option \<times> server \<times> disk" where
  "recvLoop e [] out st = (None, out, st)"
| "recvLoop e (m # ms) out st =
     (case (case out of
              None \<Rightarrow>
                newRecording e (GetNumChannels (Header m))
                  (f32_to_int32 (GetSampleRate (Header m))) st
            | Some f \<Rightarrow> (Inr f, st)) of
        (Inl err, st1) \<Rightarrow> (Some err, None, st1)
      | (Inr f, s1, fs1) \<Rightarrow>
          if 0 < length (Sample m) then
            (case WriteFrames e f (Sample m) fs1 of
               (Some err, fs2) \<Rightarrow> (Some err, Some f, s1, fs2)
             | (None, fs2) \<Rightarrow> recvLoop e ms (Some f) (s1, fs2))
          else recvLoop e ms (Some f) (s1, fs1))"

definition Record ::
  "fsEnv \<Rightarrow> RecordRequest list \<Rightarrow> server \<times> disk \<Rightarrow> error option \<times> server \<times> disk" where
  "Record e ms st =
     (case recvLoop e ms None st of
        (err, out, s1, fs1) \<Rightarrow>
          (err, s1, (case out of None \<Rightarrow> fs1 | Some f \<Rightarrow> snd (sndfileClose e f fs1))))"

text \<open>A sequence of calls of \<open>newRecording\<close> on one server value.\<close>

fun newRecordings ::
  "fsEnv \<Rightarrow> (int32 \<times> int32) list \<Rightarrow> server \<times> disk \<Rightarrow> server \<times> disk" where
  "newRecordings e [] st = st"
| "newRecordings e ((c, r) # as) st = newRecordings e as (snd (newRecording e c r st))"

text \<open>
  A stream log is well headed by \<open>h\<close> when its first message is \<open>h\<close> and no later
  message carries a header.
\<close>

definition wellHeaded :: "RecordRequest \<Rightarrow> (RecordRequest \<times> bool) list \<Rightarrow> bool" where
  "wellHeaded h l =
     (case l of [] \<Rightarrow> False
      | x # rest \<Rightarrow> fst x = h \<and> list_all (\<lambda>y. Header (fst y) = None) rest)"

text \<open>Environments and states used as concrete inputs.\<close>

definition headerLost :: env where
  "headerLost = \<lparr>recordFails = (\<lambda>k. False), sendFails = (\<lambda>s k. s = 0 \<and> k = 0),
     closeSendFails = (\<lambda>s k. False)\<rparr>"

definition streamZeroDead :: env where
  "streamZeroDead = \<lparr>recordFails = (\<lambda>k. False), sendFails = (\<lambda>s k. s = 0),
     closeSendFails = (\<lambda>s k. False)\<rparr>"

definition secondCloseFails :: env where
  "secondCloseFails = \<lparr>recordFails = (\<lambda>k. False), sendFails = (\<lambda>s k. False),
     closeSendFails = (\<lambda>s k. k = 1)\<rparr>"

definition afterOneBuffer :: "R \<times> transport" where
  "afterOneBuffer = run secondCloseFails (New (2 * Second) 1 (Fin 11025)) [Buffer [Fin 1]]"

text \<open>
  The number of calls of \<open>client.Record\<close> made so far, a buffer of one second
  of mono audio at 11025 Hz, and the recorder of the tests.
\<close>

definition recordCalls :: "transport \<Rightarrow> nat" where
  "recordCalls t = length (streams t) + failedRecords t"

definition oneSecond :: "rat \<Rightarrow> float32 list" where
  "oneSecond v = replicate 11025 (Fin v)"

definition mono11025 :: R where
  "mono11025 = New (2 * Second) 1 (Fin 11025)"

subsection \<open>What a session leaves on the disk\<close>

text \<open>
  The sequence numbers of all file names generated so far, and of the files that
  were created.
\<close>

definition requestedSeq :: "disk \<Rightarrow> int64 list" where
  "requestedSeq fs = map (\<lambda>(nm, sfi, ok). nameSeq nm) (opens fs)"

definition createdSeq :: "disk \<Rightarrow> int64 list" where
  "createdSeq fs = map (\<lambda>(nm, sfi, ok). nameSeq nm) (filter (\<lambda>(nm, sfi, ok). ok) (opens fs))"

text \<open>Concrete environments, servers and messages.\<close>

definition secondOpenFails :: fsEnv where
  "secondOpenFails = \<lparr>now = (\<lambda>k. ''2026-01-01-00-00-00''), openFails = (\<lambda>k. k = 1),
     writeFails = (\<lambda>f k. False), closeFails = (\<lambda>f k. False)\<rparr>"

definition rec0 :: server where
  "rec0 = \<lparr>prefix = ''rec'', numClients = 0\<rparr>"

definition fsReliable :: fsEnv where
  "fsReliable = \<lparr>now = (\<lambda>k. ''2026-01-01-00-00-00''), openFails = (\<lambda>k. False),
     writeFails = (\<lambda>f k. False), closeFails = (\<lambda>f k. False)\<rparr>"

definition openRefused :: fsEnv where
  "openRefused = \<lparr>now = (\<lambda>k. ''2026-01-01-00-00-00''), openFails = (\<lambda>k. True),
     writeFails = (\<lambda>f k. False), closeFails = (\<lambda>f k. False)\<rparr>"

definition firstWriteFails :: fsEnv where
  "firstWriteFails = \<lparr>now = (\<lambda>k. ''2026-01-01-00-00-00''), openFails = (\<lambda>k. False),
     writeFails = (\<lambda>f k. k = 0), closeFails = (\<lambda>f k. False)\<rparr>"

definition closeBroken :: fsEnv where
  "closeBroken = \<lparr>now = (\<lambda>k. ''2026-01-01-00-00-00''), openFails = (\<lambda>k. False),
     writeFails = (\<lambda>f k. False), closeFails = (\<lambda>f k. True)\<rparr>"



definition firstRequest :: RecordRequest where
  "firstRequest = \<lparr>Header = Some \<lparr>NumChannels = 1, SampleRate = Fin 11025\<rparr>, Sample = []\<rparr>"

text \<open>
  The frames written to a file are those of its successful \<open>WriteFrames\<close> calls.
\<close>

definition framesWritten :: "sndFile \<Rightarrow> float32 list" where
  "framesWritten fl = concat (map fst (filter snd (writes fl)))"

definition nonEmptySamples :: "RecordRequest list \<Rightarrow> float32 list list" where
  "nonEmptySamples ms = filter (\<lambda>x. x \<noteq> []) (map Sample ms)"

text \<open>What the receive loop leaves untouched once the file \<open>f\<close> is open.\<close>

definition sameBut :: "nat \<Rightarrow> disk \<Rightarrow> disk \<Rightarrow> bool" where
  "sameBut f fs fs' \<longleftrightarrow>
     opens fs' = opens fs \<and> length (files fs') = length (files fs)
     \<and> closings (files fs' ! f) = closings (files fs ! f)
     \<and> (\<forall>g. g \<noteq> f \<longrightarrow> files fs' ! g = files fs ! g)"

text \<open>
  The name and the format that \<open>Record\<close> hands to \<open>newRecording\<close> for the first
  message \<open>m\<close> of a stream, and the disk after the file was opened.
\<close>

definition recordingName :: "fsEnv \<Rightarrow> server \<Rightarrow> disk \<Rightarrow> fileName" where
  "recordingName e s fs =
     \<lparr>namePrefix = prefix s, nameStamp = now e (length (opens fs)), nameSeq = numClients s\<rparr>"

definition recordingInfo :: "RecordRequest \<Rightarrow> Info" where
  "recordingInfo m =
     \<lparr>Channels = GetNumChannels (Header m),
      Samplerate = f32_to_int32 (GetSampleRate (Header m)),
      Format = SF_FORMAT_WAV + SF_FORMAT_PCM_16\<rparr>"

definition created :: "fsEnv \<Rightarrow> RecordRequest \<Rightarrow> server \<times> disk \<Rightarrow> disk" where
  "created e m = (\<lambda>(s, fs).
     fs\<lparr>opens := opens fs @ [(recordingName e s fs, recordingInfo m, True)],
        files := files fs @ [\<lparr>name = recordingName e s fs, info = recordingInfo m,
                               writes = [], closings = []\<rparr>]\<rparr>)"

section \<open>Rounding\<close>

text \<open>
  The rounding of the model at values where \<open>float32\<close> is known: integers up to
  \<open>2^24\<close> are exact, ties go to the even significand, a third is
  \<open>11184811 / 2^25\<close>, the largest finite value is \<open>2^128 - 2^104\<close>, and half of the
  smallest subnormal rounds to zero.
\<close>

lemma f32_of_int_examples:
  "f32_of_int 11025 = Fin 11025"
  "f32_of_int 16777216 = Fin 16777216"
  "f32_of_int 16777217 = Fin 16777216"
  "f32_of_int 16777219 = Fin 16777220"
  "f32_of_int (- 33075) = Fin (- 33075)"
  by code_simp+

lemma f32_round_examples:
  "f32_div (Fin 1) (Fin 3) = Fin (11184811 / 2 ^ 25)"
  "f32_round (2 ^ 128 - 2 ^ 104) = Fin (2 ^ 128 - 2 ^ 104)"
  "f32_round (2 ^ 128 - 2 ^ 103) = PInf"
  "f32_round (1 / 2 ^ 150) = Fin 0"
  "f32_round (3 / 2 ^ 150) = Fin (1 / 2 ^ 148)"
  by code_simp+

lemma f32_to_int64_examples:
  "f32_to_int64 (Fin (5 / 2)) = 2"
  "f32_to_int64 (Fin (- 5 / 2)) = - 2"
  "f32_to_int64 PInf * Second = 0"
  by code_simp+

section \<open>Effects of the transport calls\<close>

lemma map_update_same: "(map f xs)[s := f (xs ! s)] = map f xs"
proof (cases "s < length xs")
  case True
  then have "f (xs ! s) = map f xs ! s" by simp
  then show ?thesis by (simp only: list_update_id)
next
  case False
  then have "length (map f xs) \<le> s" by simp
  then show ?thesis by (rule list_update_beyond)
qed

lemma log_CloseSend: "log (snd (CloseSend e s t)) = log t"
  by (simp add: CloseSend_def log_def Let_def map_update map_update_same)

lemma len_CloseSend: "length (streams (snd (CloseSend e s t))) = length (streams t)"
  by (simp add: CloseSend_def Let_def)

lemma failed_CloseSend: "failedRecords (snd (CloseSend e s t)) = failedRecords t"
  by (simp add: CloseSend_def Let_def)

lemma log_Send:
  "s < length (streams t) \<Longrightarrow>
   log (snd (Send e s req t)) = (log t)[s := log t ! s @ [(req, \<not> sendFails e s (length (log t ! s)))]]"
  by (simp add: Send_def log_def Let_def map_update)

lemma closes_Send: "closes (snd (Send e s req t)) = closes t"
  by (simp add: Send_def closes_def Let_def map_update map_update_same)

lemma len_Send: "length (streams (snd (Send e s req t))) = length (streams t)"
  by (simp add: Send_def Let_def)

lemma failed_Send: "failedRecords (snd (Send e s req t)) = failedRecords t"
  by (simp add: Send_def Let_def)

lemma fst_Send:
  "fst (Send e s req t) = (if sendFails e s (length (sent (streams t ! s))) then Some SendFailed else None)"
  by (simp add: Send_def Let_def)

lemma closeCurrentStream_eff:
  assumes "closeCurrentStream e (r, t) = (err, r1, t1)"
  shows "r1 = r\<lparr>currentFrames := 0\<rparr>" and "log t1 = log t"
    and "length (streams t1) = length (streams t)" and "failedRecords t1 = failedRecords t"
proof -
  show "r1 = r\<lparr>currentFrames := 0\<rparr>"
    using assms by (auto simp: closeCurrentStream_def Let_def split: option.splits prod.splits)
  have t1: "t1 = t \<or> (\<exists>s. t1 = snd (CloseSend e s t))"
    using assms by (auto simp: closeCurrentStream_def Let_def split: option.splits prod.splits)
      (metis snd_conv)
  then show "log t1 = log t" by (auto simp: log_CloseSend)
  from t1 show "length (streams t1) = length (streams t)" by (auto simp: len_CloseSend)
  from t1 show "failedRecords t1 = failedRecords t" by (auto simp: failed_CloseSend)
qed

lemma headerRequest_frames [simp]: "headerRequest (r\<lparr>currentFrames := n\<rparr>) = headerRequest r"
  by (simp add: headerRequest_def)

lemma testAndCloseStream_keep:
  "currentStream r = Some s \<Longrightarrow> sint d \<le> sint (maxLength r) \<Longrightarrow>
   testAndCloseStream e d (r, t) = (None, r, t)"
  by (simp add: testAndCloseStream_def)

lemma testAndCloseStream_failed:
  assumes rot: "currentStream r = None \<or> sint (maxLength r) < sint d"
    and fails: "recordFails e (length (streams t) + failedRecords t)"
    and res: "testAndCloseStream e d (r, t) = (err, r', t')"
  shows "err = Some RecordFailed" and "r' = r\<lparr>currentFrames := 0, currentStream := None\<rparr>"
    and "log t' = log t" and "length (streams t') = length (streams t)"
    and "failedRecords t' = Suc (failedRecords t)"
proof -
  obtain cerr r1 t1 where c: "closeCurrentStream e (r, t) = (cerr, r1, t1)"
    by (metis prod_cases3)
  note eff = closeCurrentStream_eff [OF c]
  have rec: "clientRecord e t1 = (Inl RecordFailed, t1\<lparr>failedRecords := Suc (failedRecords t1)\<rparr>)"
    using fails eff by (simp add: clientRecord_def)
  have "(err, r', t') = (Some RecordFailed, r1\<lparr>currentStream := None\<rparr>,
      t1\<lparr>failedRecords := Suc (failedRecords t1)\<rparr>)"
    using rot res c rec by (auto simp: testAndCloseStream_def)
  then show "err = Some RecordFailed" and "r' = r\<lparr>currentFrames := 0, currentStream := None\<rparr>"
    and "log t' = log t" and "length (streams t') = length (streams t)"
    and "failedRecords t' = Suc (failedRecords t)"
    using eff by (simp_all add: log_def)
qed

lemma testAndCloseStream_opened:
  assumes rot: "currentStream r = None \<or> sint (maxLength r) < sint d"
    and ok: "\<not> recordFails e (length (streams t) + failedRecords t)"
    and res: "testAndCloseStream e d (r, t) = (err, r', t')"
  shows "err = (if sendFails e (length (streams t)) 0 then Some SendFailed else None)"
    and "r' = r\<lparr>currentFrames := 0, currentStream := Some (length (streams t))\<rparr>"
    and "log t' = log t @ [[(headerRequest r, \<not> sendFails e (length (streams t)) 0)]]"
    and "failedRecords t' = failedRecords t"
proof -
  obtain cerr r1 t1 where c: "closeCurrentStream e (r, t) = (cerr, r1, t1)"
    by (metis prod_cases3)
  note eff = closeCurrentStream_eff [OF c]
  define n where "n = length (streams t)"
  define t2 where "t2 = t1\<lparr>streams := streams t1 @ [\<lparr>sent = [], closeSends = []\<rparr>]\<rparr>"
  have rec: "clientRecord e t1 = (Inr n, t2)"
    using ok eff by (simp add: clientRecord_def n_def t2_def)
  have res': "(err, r', t') = (fst (Send e n (headerRequest r) t2),
      r1\<lparr>currentStream := Some n\<rparr>, snd (Send e n (headerRequest r) t2))"
    using rot res c rec eff(1) by (auto simp: testAndCloseStream_def split: prod.splits)
  have n: "n = length (streams t1)" by (simp add: n_def eff)
  have lt: "n < length (streams t2)" by (simp add: t2_def n)
  have log2: "log t2 = log t @ [[]]"
    using eff(2) by (simp add: t2_def log_def)
  have len: "length (log t) = n" by (simp add: log_def n_def)
  show "err = (if sendFails e (length (streams t)) 0 then Some SendFailed else None)"
    using res' by (simp add: fst_Send t2_def n n_def [symmetric])
  show "r' = r\<lparr>currentFrames := 0, currentStream := Some (length (streams t))\<rparr>"
    using res' eff by (simp add: n_def)
  have "log (snd (Send e n (headerRequest r) t2))
      = (log t @ [[]])[n := (log t @ [[]]) ! n @ [(headerRequest r, \<not> sendFails e n (length ((log t @ [[]]) ! n)))]]"
    using log_Send [OF lt, of e "headerRequest r"] by (simp only: log2)
  also have "\<dots> = log t @ [[(headerRequest r, \<not> sendFails e n 0)]]"
    by (simp add: nth_append len [symmetric])
  finally show "log t' = log t @ [[(headerRequest r, \<not> sendFails e (length (streams t)) 0)]]"
    using res' by (simp add: n_def)
  show "failedRecords t' = failedRecords t"
    using res' eff by (simp add: failed_Send t2_def)
qed

lemma testAndCloseStream_holds:
  assumes "testAndCloseStream e d (r, t) = (None, r', t')"
  shows "currentStream r' \<noteq> None"
proof (cases "currentStream r \<noteq> None \<and> sint d \<le> sint (maxLength r)")
  case True
  with assms show ?thesis by (auto simp: testAndCloseStream_def)
next
  case False
  then have rot: "currentStream r = None \<or> sint (maxLength r) < sint d" by auto
  show ?thesis
  proof (cases "recordFails e (length (streams t) + failedRecords t)")
    case True
    from testAndCloseStream_failed(1) [OF rot True assms] show ?thesis by simp
  next
    case False
    from testAndCloseStream_opened(2) [OF rot False assms] show ?thesis by simp
  qed
qed

lemma callback_keep:
  assumes "\<not> rotates dv r b" and "callback e dv b (r, t) = (r', t')"
  shows "r' = r\<lparr>currentFrames := currentFrames r + of_nat (length b)\<rparr>"
    and "t' = snd (Send e (the (currentStream r)) (sampleRequest b) t)"
proof -
  from assms(1) obtain s where s: "currentStream r = Some s"
    and d: "sint (projected dv (currentFrames r + of_nat (length b))) \<le> sint (maxLength r)"
    by (auto simp: rotates_def)
  have "callback e dv b (r, t)
      = (r\<lparr>currentFrames := currentFrames r + of_nat (length b)\<rparr>,
         snd (Send e s (sampleRequest b) t))"
    by (simp add: callback_def Let_def testAndCloseStream_keep [OF s d] s sampleRequest_def
        split: prod.splits)
  with assms(2) s show "r' = r\<lparr>currentFrames := currentFrames r + of_nat (length b)\<rparr>"
    and "t' = snd (Send e (the (currentStream r)) (sampleRequest b) t)"
    by simp_all
qed

lemma callback_failed:
  assumes rot: "rotates dv r b"
    and fails: "recordFails e (length (streams t) + failedRecords t)"
    and res: "callback e dv b (r, t) = (r', t')"
  shows "r' = r\<lparr>currentFrames := 0, currentStream := None\<rparr>"
    and "log t' = log t" and "length (streams t') = length (streams t)"
    and "failedRecords t' = Suc (failedRecords t)"
proof -
  let ?d = "projected dv (currentFrames r + of_nat (length b))"
  obtain err r1 t1 where tc: "testAndCloseStream e ?d (r, t) = (err, r1, t1)"
    by (metis prod_cases3)
  from rot have rot': "currentStream r = None \<or> sint (maxLength r) < sint ?d"
    by (simp add: rotates_def)
  note eff = testAndCloseStream_failed [OF rot' fails tc]
  have "callback e dv b (r, t) = (r1, t1)"
    using tc eff(1) by (simp add: callback_def Let_def)
  with res have "r' = r1" and "t' = t1" by simp_all
  with eff show "r' = r\<lparr>currentFrames := 0, currentStream := None\<rparr>"
    and "log t' = log t" and "length (streams t') = length (streams t)"
    and "failedRecords t' = Suc (failedRecords t)"
    by simp_all
qed

lemma callback_dropped:
  assumes rot: "rotates dv r b"
    and ok: "\<not> recordFails e (length (streams t) + failedRecords t)"
    and hdr: "sendFails e (length (streams t)) 0"
    and res: "callback e dv b (r, t) = (r', t')"
  shows "r' = r\<lparr>currentFrames := 0, currentStream := Some (length (streams t))\<rparr>"
    and "log t' = log t @ [[(headerRequest r, False)]]"
    and "failedRecords t' = failedRecords t"
proof -
  let ?d = "projected dv (currentFrames r + of_nat (length b))"
  obtain err r1 t1 where tc: "testAndCloseStream e ?d (r, t) = (err, r1, t1)"
    by (metis prod_cases3)
  from rot have rot': "currentStream r = None \<or> sint (maxLength r) < sint ?d"
    by (simp add: rotates_def)
  note eff = testAndCloseStream_opened [OF rot' ok tc]
  have "callback e dv b (r, t) = (r1, t1)"
    using tc eff(1) hdr by (simp add: callback_def Let_def)
  with res have "r' = r1" and "t' = t1" by simp_all
  with eff hdr show "r' = r\<lparr>currentFrames := 0, currentStream := Some (length (streams t))\<rparr>"
    and "log t' = log t @ [[(headerRequest r, False)]]"
    and "failedRecords t' = failedRecords t"
    by simp_all
qed

lemma callback_rotated:
  assumes rot: "rotates dv r b"
    and ok: "\<not> recordFails e (length (streams t) + failedRecords t)"
    and hdr: "\<not> sendFails e (length (streams t)) 0"
    and res: "callback e dv b (r, t) = (r', t')"
  shows "r' = r\<lparr>currentFrames := of_nat (length b), currentStream := Some (length (streams t))\<rparr>"
    and "log t' = log t @ [[(headerRequest r, True),
           (sampleRequest b, \<not> sendFails e (length (streams t)) 1)]]"
    and "failedRecords t' = failedRecords t"
proof -
  let ?d = "projected dv (currentFrames r + of_nat (length b))"
  let ?n = "length (streams t)"
  obtain err r1 t1 where tc: "testAndCloseStream e ?d (r, t) = (err, r1, t1)"
    by (metis prod_cases3)
  from rot have rot': "currentStream r = None \<or> sint (maxLength r) < sint ?d"
    by (simp add: rotates_def)
  note eff = testAndCloseStream_opened [OF rot' ok tc]
  have len1: "length (log t1) = Suc ?n" using eff(3) by (simp add: log_def)
  then have lt: "?n < length (streams t1)" by (simp add: log_def)
  have cb: "callback e dv b (r, t)
      = (r1\<lparr>currentFrames := currentFrames r1 + of_nat (length b)\<rparr>,
         snd (Send e ?n (sampleRequest b) t1))"
    using tc eff(1,2) hdr by (simp add: callback_def Let_def sampleRequest_def split: prod.splits)
  with res have r': "r' = r1\<lparr>currentFrames := currentFrames r1 + of_nat (length b)\<rparr>"
    and t': "t' = snd (Send e ?n (sampleRequest b) t1)" by simp_all
  show "r' = r\<lparr>currentFrames := of_nat (length b), currentStream := Some ?n\<rparr>"
    using r' eff(2) by simp
  have ln: "length (log t) = ?n" by (simp add: log_def)
  show "log t' = log t @ [[(headerRequest r, True), (sampleRequest b, \<not> sendFails e ?n 1)]]"
    unfolding t' log_Send [OF lt] eff(3) using hdr by (simp add: nth_append ln [symmetric])
  show "failedRecords t' = failedRecords t"
    unfolding t' using eff(4) by (simp add: failed_Send)
qed

section \<open>Runs of the recorder\<close>

lemma run_perform: "run e r cs = foldl (perform e (divisor r)) (r, noTransport) cs"
proof -
  have "(\<lambda>st c. case c of Buffer b \<Rightarrow> callback e (divisor r) b st
          | CloseCall \<Rightarrow> snd (Close e st)) = perform e (divisor r)"
    by (intro ext) (simp split: call.splits)
  then show ?thesis by (simp add: run_def Process_def)
qed

lemma run_snoc: "run e r (cs @ [c]) = perform e (divisor r) (run e r cs) c"
  by (simp add: run_perform)

lemma run_Nil: "run e r [] = (r, noTransport)"
  by (simp add: run_perform)

lemma update_last:
  "Suc s = length ls \<Longrightarrow> ls[s := ls ! s @ [x]] = butlast ls @ [last ls @ [x]]"
  by (cases ls rule: rev_cases) (simp_all add: nth_append)

lemma Close_eff:
  assumes "Close e (r, t) = (err, r', t')"
  shows "r' = r\<lparr>currentFrames := 0\<rparr>" and "log t' = log t"
    and "length (streams t') = length (streams t)" and "failedRecords t' = failedRecords t"
  using closeCurrentStream_eff [of e r t err r' t'] assms by (simp_all add: Close_def)

lemma perform_cases [consumes 2, case_names close keep failed dropped rotated]:
  assumes inv: "holdsLast (r, t)" and res: "perform e dv (r, t) c = (r', t')"
  obtains
    "c = CloseCall" and "log t' = log t" and "r' = r\<lparr>currentFrames := 0\<rparr>"
  | b s where "c = Buffer b" and "\<not> rotates dv r b"
      and "currentStream r = Some s" and "Suc s = length (log t)"
      and "log t' = butlast (log t)
             @ [last (log t) @ [(sampleRequest b, \<not> sendFails e s (length (last (log t))))]]"
      and "r' = r\<lparr>currentFrames := currentFrames r + of_nat (length b)\<rparr>"
  | b where "c = Buffer b" and "rotates dv r b"
      and "recordFails e (length (log t) + failedRecords t)"
      and "log t' = log t" and "r' = r\<lparr>currentFrames := 0, currentStream := None\<rparr>"
  | b where "c = Buffer b" and "rotates dv r b"
      and "\<not> recordFails e (length (log t) + failedRecords t)"
      and "sendFails e (length (log t)) 0"
      and "log t' = log t @ [[(headerRequest r, False)]]"
      and "r' = r\<lparr>currentFrames := 0, currentStream := Some (length (log t))\<rparr>"
  | b where "c = Buffer b" and "rotates dv r b"
      and "\<not> recordFails e (length (log t) + failedRecords t)"
      and "\<not> sendFails e (length (log t)) 0"
      and "log t' = log t @ [[(headerRequest r, True),
             (sampleRequest b, \<not> sendFails e (length (log t)) 1)]]"
      and "r' = r\<lparr>currentFrames := of_nat (length b), currentStream := Some (length (log t))\<rparr>"
proof (cases c)
  case CloseCall
  obtain err where "Close e (r, t) = (err, r', t')"
    using res CloseCall by (cases "Close e (r, t)") simp
  from Close_eff [OF this] CloseCall that(1) show ?thesis by simp
next
  case (Buffer b)
  with res have cb: "callback e dv b (r, t) = (r', t')" by simp
  have len: "length (log t) = length (streams t)" by (simp add: log_def)
  show ?thesis
  proof (cases "rotates dv r b")
    case False
    then obtain s where s: "currentStream r = Some s" by (auto simp: rotates_def)
    with inv have last: "Suc s = length (streams t)" by (simp add: holdsLast_def)
    then have lt: "s < length (streams t)" by simp
    from last have ne: "log t \<noteq> []" by (auto simp: log_def)
    from last have s_eq: "s = length (log t) - 1" by (simp add: len)
    have nth: "log t ! s = last (log t)"
      using ne s_eq by (simp add: last_conv_nth)
    note k = callback_keep [OF False cb]
    have "log t' = butlast (log t)
             @ [last (log t) @ [(sampleRequest b, \<not> sendFails e s (length (last (log t))))]]"
      using k(2) s log_Send [OF lt, of e "sampleRequest b"] update_last [of s "log t"] last
      by (simp add: len nth)
    with Buffer False s last k(1) that(2) show ?thesis by (simp add: len)
  next
    case True
    show ?thesis
    proof (cases "recordFails e (length (streams t) + failedRecords t)")
      case fails: True
      note k = callback_failed [OF True fails cb]
      with Buffer True fails that(3) show ?thesis by (simp add: len)
    next
      case ok: False
      show ?thesis
      proof (cases "sendFails e (length (streams t)) 0")
        case hdr: True
        note k = callback_dropped [OF True ok hdr cb]
        with Buffer True ok hdr that(4) show ?thesis by (simp add: len)
      next
        case hdr: False
        note k = callback_rotated [OF True ok hdr cb]
        with Buffer True ok hdr that(5) show ?thesis by (simp add: len)
      qed
    qed
  qed
qed

lemma holdsLast_perform:
  assumes "holdsLast (r, t)" and "perform e dv (r, t) c = (r', t')"
  shows "holdsLast (r', t')"
  using assms
proof (cases rule: perform_cases)
  case close
  then have "length (streams t') = length (streams t)"
    by (metis length_map log_def)
  with close assms(1) show ?thesis by (simp add: holdsLast_def split: option.splits)
next
  case (keep b s)
  then have "length (log t') = length (log t)" by simp
  then have "length (streams t') = length (streams t)" by (simp add: log_def)
  with keep show ?thesis by (simp add: holdsLast_def log_def)
next
  case (failed b)
  then show ?thesis by (simp add: holdsLast_def)
next
  case (dropped b)
  then have "length (log t') = Suc (length (log t))" by simp
  then have "length (streams t') = Suc (length (streams t))" by (simp add: log_def)
  with dropped show ?thesis by (simp add: holdsLast_def log_def)
next
  case (rotated b)
  then have "length (log t') = Suc (length (log t))" by simp
  then have "length (streams t') = Suc (length (streams t))" by (simp add: log_def)
  with rotated show ?thesis by (simp add: holdsLast_def log_def)
qed

lemma holdsLast_run:
  "currentStream r = None \<Longrightarrow> holdsLast (run e r cs)"
proof (induction cs rule: rev_induct)
  case Nil
  then show ?case by (simp add: run_Nil holdsLast_def)
next
  case (snoc c cs)
  obtain r1 t1 where st: "run e r cs = (r1, t1)" by (cases "run e r cs")
  obtain r2 t2 where st2: "perform e (divisor r) (r1, t1) c = (r2, t2)"
    by (cases "perform e (divisor r) (r1, t1) c")
  from snoc st have "holdsLast (r1, t1)" by simp
  from holdsLast_perform [OF this st2] show ?case by (simp add: run_snoc st st2)
qed

lemma payload_snoc [simp]: "payload (ls @ [l]) = payload ls @ samplesOf (delivered l)"
  by (simp add: payload_def)

lemma delivered_snoc [simp]:
  "delivered (l @ [(m, ok)]) = (if ok then delivered l @ [m] else delivered l)"
  by (simp add: delivered_def)

lemma samplesOf_snoc [simp]:
  "samplesOf (ms @ [m]) = (if Header m = None then samplesOf ms @ Sample m else samplesOf ms)"
  by (simp add: samplesOf_def)

lemma payload_last:
  assumes "ls \<noteq> []"
  shows "payload (butlast ls @ [last ls @ [(sampleRequest b, True)]]) = payload ls @ b"
proof -
  have "payload ls = payload (butlast ls @ [last ls])" using assms by simp
  then show ?thesis by (simp add: sampleRequest_def del: append_butlast_last_id)
qed

lemma payload_perform:
  assumes inv: "holdsLast (r, t)" and ok: "allSucceed e"
    and res: "perform e dv (r, t) c = (r', t')"
  shows "payload (log t') = payload (log t) @ concat (buffersOf [c])"
  using inv res
proof (cases rule: perform_cases)
  case close
  then show ?thesis by simp
next
  case (keep b s)
  then have "log t \<noteq> []" by auto
  from payload_last [OF this] keep ok show ?thesis by (simp add: allSucceed_def)
next
  case (failed b)
  with ok show ?thesis by (simp add: allSucceed_def)
next
  case (dropped b)
  with ok show ?thesis by (simp add: allSucceed_def)
next
  case (rotated b)
  with ok show ?thesis
    by (simp add: allSucceed_def delivered_def samplesOf_def sampleRequest_def headerRequest_def)
qed

lemma buffersOf_append [simp]: "buffersOf (cs @ ds) = buffersOf cs @ buffersOf ds"
  by (induction cs rule: buffersOf.induct) simp_all

lemma payload_run:
  assumes "currentStream r = None" and "allSucceed e"
  shows "payload (log (snd (run e r cs))) = concat (buffersOf cs)"
proof (induction cs rule: rev_induct)
  case Nil
  show ?case by (simp add: run_Nil noTransport_def log_def payload_def)
next
  case (snoc c cs)
  obtain r1 t1 where st: "run e r cs = (r1, t1)" by (cases "run e r cs")
  obtain r2 t2 where st2: "perform e (divisor r) (r1, t1) c = (r2, t2)"
    by (cases "perform e (divisor r) (r1, t1) c")
  have inv: "holdsLast (r1, t1)" using holdsLast_run [OF assms(1), of e cs] st by simp
  from payload_perform [OF inv assms(2) st2] snoc st
  show ?case by (simp add: run_snoc st2)
qed

lemma buffersOf_map_Buffer [simp]: "buffersOf (map Buffer bufs) = bufs"
  by (induction bufs) simp_all

section \<open>Sample preservation\<close>

text \<open>
  Claim C1. Whatever buffers the capture source delivers in order to the callback
  returned by \<open>Process\<close>, if every stream open, every header send and every
  sample send succeeds, then the samples of the delivered messages without
  header, read stream by stream in the order of opening, are exactly the input
  buffers one after the other: nothing is lost, doubled or moved.
\<close>

theorem sample_preservation:
  assumes "\<forall>k. \<not> recordFails e k" and "\<forall>s k. \<not> sendFails e s k"
  shows "payload (log (snd (feed e (New maxLen nCh rate) bufs))) = concat bufs"
proof -
  have "allSucceed e" using assms by (simp add: allSucceed_def)
  moreover have "currentStream (New maxLen nCh rate) = None" by (simp add: New_def)
  ultimately show ?thesis by (simp add: feed_def payload_run)
qed

theorem sample_preservation_witness:
  "(\<forall>k. \<not> recordFails reliable k) \<and> (\<forall>s k. \<not> sendFails reliable s k)
   \<and> payload (log (snd (feed reliable (New (2 * Second) 1 (Fin 11025))
         [[Fin 1, Fin 2], [Fin 3]]))) = [Fin 1, Fin 2, Fin 3]"
  using sample_preservation [of reliable "2 * Second" 1 "Fin 11025" "[[Fin 1, Fin 2], [Fin 3]]"]
  by (simp add: reliable_def)

section \<open>The header invariant\<close>

lemma wellHeaded_snoc:
  "wellHeaded h l \<Longrightarrow> Header (fst x) = None \<Longrightarrow> wellHeaded h (l @ [x])"
  by (cases l) (simp_all add: wellHeaded_def)

lemma list_all_butlast_last:
  assumes "list_all P ls" and "ls \<noteq> []"
  shows "list_all P (butlast ls)" and "P (last ls)"
proof -
  from assms have "list_all P (butlast ls @ [last ls])" by simp
  then show "list_all P (butlast ls)" and "P (last ls)"
    by (simp_all del: append_butlast_last_id)
qed

lemma wellHeaded_perform:
  assumes inv: "holdsLast (r, t)" and wh: "list_all (wellHeaded (headerRequest r)) (log t)"
    and res: "perform e dv (r, t) c = (r', t')"
  shows "list_all (wellHeaded (headerRequest r)) (log t') \<and> headerRequest r' = headerRequest r"
  using inv res
proof (cases rule: perform_cases)
  case close
  with wh show ?thesis by simp
next
  case (keep b s)
  then have ne: "log t \<noteq> []" by auto
  note bl = list_all_butlast_last [OF wh ne]
  have "wellHeaded (headerRequest r)
      (last (log t) @ [(sampleRequest b, \<not> sendFails e s (length (last (log t))))])"
    by (rule wellHeaded_snoc [OF bl(2)]) (simp add: sampleRequest_def)
  with bl(1) keep show ?thesis by simp
next
  case (failed b)
  with wh show ?thesis by (simp add: headerRequest_def)
next
  case (dropped b)
  with wh show ?thesis by (simp add: wellHeaded_def headerRequest_def)
next
  case (rotated b)
  with wh show ?thesis by (simp add: wellHeaded_def sampleRequest_def headerRequest_def)
qed

lemma wellHeaded_run:
  assumes "currentStream r = None"
  shows "list_all (wellHeaded (headerRequest r)) (log (snd (run e r cs)))
    \<and> headerRequest (fst (run e r cs)) = headerRequest r"
proof (induction cs rule: rev_induct)
  case Nil
  show ?case by (simp add: run_Nil noTransport_def log_def)
next
  case (snoc c cs)
  obtain r1 t1 where st: "run e r cs = (r1, t1)" by (cases "run e r cs")
  obtain r2 t2 where st2: "perform e (divisor r) (r1, t1) c = (r2, t2)"
    by (cases "perform e (divisor r) (r1, t1) c")
  have inv: "holdsLast (r1, t1)" using holdsLast_run [OF assms, of e cs] st by simp
  from snoc st have hr: "headerRequest r1 = headerRequest r"
    and wh: "list_all (wellHeaded (headerRequest r1)) (log t1)" by simp_all
  from wellHeaded_perform [OF inv wh st2] hr show ?case by (simp add: run_snoc st st2)
qed

lemma wellHeaded_headerFirst:
  assumes "wellHeaded h l" and "Header h \<noteq> None"
  shows "headerFirst (requests l)" and "hd (requests l) = h"
    and "snd (hd l) \<Longrightarrow> headerFirst (delivered l)"
proof -
  from assms(1) obtain x rest where l: "l = x # rest" and x: "fst x = h"
    and rest: "list_all (\<lambda>y. Header (fst y) = None) rest"
    by (cases l) (auto simp: wellHeaded_def)
  from rest have r1: "list_all (\<lambda>m. Header m = None) (map fst rest)"
    by (induction rest) simp_all
  from rest have r2: "list_all (\<lambda>m. Header m = None) (map fst (filter snd rest))"
    by (induction rest) simp_all
  show "headerFirst (requests l)" using l x r1 assms(2) by (simp add: requests_def)
  show "hd (requests l) = h" using l x by (simp add: requests_def)
  show "headerFirst (delivered l)" if "snd (hd l)"
    using that l x r2 assms(2) by (simp add: delivered_def)
qed

text \<open>
  Claim C4. Every stream that the recorder opens is handed exactly one message
  with a header: it is the first message sent on the stream, it is the header of
  the recorder's configuration, and every later message on the stream has no
  header. This holds whatever fails. When that first send succeeded, the
  delivered messages have the same shape.
\<close>

theorem header_invariant:
  assumes "st \<in> set (streams (snd (run e (New maxLen nCh rate) cs)))"
  shows "headerFirst (requests (sent st))
    \<and> hd (requests (sent st)) = headerRequest (New maxLen nCh rate)
    \<and> (snd (hd (sent st)) \<longrightarrow> headerFirst (delivered (sent st)))"
proof -
  let ?r = "New maxLen nCh rate"
  have "currentStream ?r = None" by (simp add: New_def)
  from wellHeaded_run [OF this, of e cs]
  have "list_all (wellHeaded (headerRequest ?r)) (log (snd (run e ?r cs)))" by simp
  with assms have wh: "wellHeaded (headerRequest ?r) (sent st)"
    by (auto simp: log_def list_all_iff)
  have "Header (headerRequest ?r) \<noteq> None" by (simp add: headerRequest_def)
  from wellHeaded_headerFirst [OF wh this] show ?thesis by simp
qed

lemma run_one_buffer:
  "streams (snd (run reliable (New (2 * Second) 1 (Fin 11025)) [Buffer [Fin 1]]))
   = [\<lparr>sent = [(headerRequest (New (2 * Second) 1 (Fin 11025)), True),
               (sampleRequest [Fin 1], True)], closeSends = []\<rparr>]"
  by code_simp

theorem header_invariant_witness:
  "hd (streams (snd (run reliable (New (2 * Second) 1 (Fin 11025)) [Buffer [Fin 1]])))
     \<in> set (streams (snd (run reliable (New (2 * Second) 1 (Fin 11025)) [Buffer [Fin 1]])))
   \<and> headerFirst (requests (sent (hd (streams (snd (run reliable
        (New (2 * Second) 1 (Fin 11025)) [Buffer [Fin 1]]))))))
   \<and> headerFirst (delivered (sent (hd (streams (snd (run reliable
        (New (2 * Second) 1 (Fin 11025)) [Buffer [Fin 1]]))))))"
  using header_invariant [of "hd (streams (snd (run reliable
        (New (2 * Second) 1 (Fin 11025)) [Buffer [Fin 1]])))" reliable "2 * Second" 1 "Fin 11025"
        "[Buffer [Fin 1]]"]
  by (simp add: run_one_buffer)

section \<open>Closing\<close>

lemma closes_CloseSend:
  "s < length (streams t) \<Longrightarrow>
   closes (snd (CloseSend e s t))
     = (closes t)[s := closes t ! s @ [\<not> closeSendFails e s (length (closes t ! s))]]"
  by (simp add: CloseSend_def closes_def Let_def map_update)

lemma fst_CloseSend:
  "fst (CloseSend e s t)
     = (if closeSendFails e s (length (closeSends (streams t ! s))) then Some CloseSendFailed else None)"
  by (simp add: CloseSend_def Let_def)

lemma Close_None:
  "currentStream r = None \<Longrightarrow> Close e (r, t) = (None, r\<lparr>currentFrames := 0\<rparr>, t)"
  by (simp add: Close_def closeCurrentStream_def)

lemma Close_Some:
  "currentStream r = Some s \<Longrightarrow>
   Close e (r, t) = (fst (CloseSend e s t), r\<lparr>currentFrames := 0\<rparr>, snd (CloseSend e s t))"
  by (simp add: Close_def closeCurrentStream_def split: prod.splits)

text \<open>
  Claim C8, as amended. \<open>Close\<close> sets the frame counter to zero and keeps the
  stream handle. With no stream held it returns no error and calls nothing. With
  a stream held, every call of \<open>Close\<close> calls \<open>CloseSend\<close> on that stream and
  returns its outcome: two calls in succession leave two \<open>CloseSend\<close> calls on
  the stream, and the second call returns what the second \<open>CloseSend\<close> returns.
\<close>

theorem Close_twice:
  assumes c1: "Close e (r, t) = (err1, r1, t1)" and c2: "Close e (r1, t1) = (err2, r2, t2)"
  shows "currentFrames r2 = 0 \<and> currentStream r2 = currentStream r \<and> log t2 = log t
    \<and> (case currentStream r of
          None \<Rightarrow> err1 = None \<and> err2 = None \<and> t2 = t
        | Some s \<Rightarrow>
            s < length (streams t) \<longrightarrow>
              closes t2 = (closes t)[s := closes t ! s @
                 [\<not> closeSendFails e s (length (closes t ! s)),
                  \<not> closeSendFails e s (Suc (length (closes t ! s)))]]
              \<and> err2 = (if closeSendFails e s (Suc (length (closes t ! s)))
                         then Some CloseSendFailed else None))"
proof (cases "currentStream r")
  case None
  with c1 have 1: "err1 = None" "r1 = r\<lparr>currentFrames := 0\<rparr>" "t1 = t"
    by (simp_all add: Close_None)
  then have "currentStream r1 = None" using None by simp
  with c2 have "err2 = None" "r2 = r1\<lparr>currentFrames := 0\<rparr>" "t2 = t1"
    by (simp_all add: Close_None)
  with 1 None show ?thesis by simp
next
  case (Some s)
  with c1 have 1: "err1 = fst (CloseSend e s t)" "r1 = r\<lparr>currentFrames := 0\<rparr>"
    "t1 = snd (CloseSend e s t)"
    by (simp_all add: Close_Some)
  then have s1: "currentStream r1 = Some s" using Some by simp
  with c2 have 2: "err2 = fst (CloseSend e s t1)" "r2 = r1\<lparr>currentFrames := 0\<rparr>"
    "t2 = snd (CloseSend e s t1)"
    by (simp_all add: Close_Some)
  have lg: "log t2 = log t" using 1 2 by (simp add: log_CloseSend)
  have main: "closes t2 = (closes t)[s := closes t ! s @
                 [\<not> closeSendFails e s (length (closes t ! s)),
                  \<not> closeSendFails e s (Suc (length (closes t ! s)))]]
              \<and> err2 = (if closeSendFails e s (Suc (length (closes t ! s)))
                         then Some CloseSendFailed else None)"
    if lt: "s < length (streams t)"
  proof -
    have lt1: "s < length (streams t1)" using lt 1 by (simp add: len_CloseSend)
    have lc: "s < length (closes t)" using lt by (simp add: closes_def)
    have ct1: "closes t1 = (closes t)[s := closes t ! s @ [\<not> closeSendFails e s (length (closes t ! s))]]"
      using 1 closes_CloseSend [OF lt] by simp
    have nth1: "closeSends (streams t1 ! s) = closes t1 ! s"
      using lt1 by (simp add: closes_def)
    have "closes t2 = (closes t1)[s := closes t1 ! s @ [\<not> closeSendFails e s (length (closes t1 ! s))]]"
      using 2 closes_CloseSend [OF lt1] by simp
    then have "closes t2 = (closes t)[s := closes t ! s @
                 [\<not> closeSendFails e s (length (closes t ! s)),
                  \<not> closeSendFails e s (Suc (length (closes t ! s)))]]"
      using lc by (simp add: ct1)
    moreover have "err2 = (if closeSendFails e s (Suc (length (closes t ! s)))
                         then Some CloseSendFailed else None)"
      using 2(1) lc by (simp add: fst_CloseSend nth1 ct1)
    ultimately show ?thesis by simp
  qed
  from Some 1 2 lg main show ?thesis by simp
qed

lemma afterOneBuffer_state:
  "currentStream (fst afterOneBuffer) = Some 0"
  "length (streams (snd afterOneBuffer)) = 1"
  "closes (snd afterOneBuffer) = [[]]"
  by code_simp+

theorem Close_twice_witness:
  "currentStream (fst afterOneBuffer) = Some 0
   \<and> closes (snd (snd (Close secondCloseFails (snd (Close secondCloseFails afterOneBuffer)))))
       = [[True, False]]
   \<and> fst (Close secondCloseFails (snd (Close secondCloseFails afterOneBuffer)))
       = Some CloseSendFailed"
proof -
  let ?c1 = "Close secondCloseFails afterOneBuffer"
  let ?c2 = "Close secondCloseFails (snd ?c1)"
  have 1: "Close secondCloseFails (fst afterOneBuffer, snd afterOneBuffer)
      = (fst ?c1, fst (snd ?c1), snd (snd ?c1))" by simp
  have 2: "Close secondCloseFails (fst (snd ?c1), snd (snd ?c1))
      = (fst ?c2, fst (snd ?c2), snd (snd ?c2))" by simp
  from Close_twice [OF 1 2] show ?thesis
    by (simp add: afterOneBuffer_state secondCloseFails_def)
qed

text \<open>
  Claim C8 as stated fails: after one buffer, a second \<open>Close\<close> calls \<open>CloseSend\<close>
  a second time on the same stream, and returns an error when that call fails.
\<close>

theorem second_Close_sends_again:
  "closes (snd (run reliable (New (2 * Second) 1 (Fin 11025))
      [Buffer [Fin 1], CloseCall, CloseCall])) = [[True, True]]
   \<and> fst (Close secondCloseFails (run secondCloseFails (New (2 * Second) 1 (Fin 11025))
        [Buffer [Fin 1], CloseCall])) = Some CloseSendFailed
   \<and> closes (snd (snd (Close secondCloseFails (run secondCloseFails
        (New (2 * Second) 1 (Fin 11025)) [Buffer [Fin 1], CloseCall])))) = [[True, False]]"
  by code_simp

section \<open>Failed rotations\<close>

text \<open>
  A rotation that fails drops the buffer on both paths. After a failed open the
  recorder holds no stream, and the next buffer rotates again. After a failed
  header send the recorder holds the new stream, and a next buffer that fits is
  sent on it as samples.
\<close>

lemma failed_open_retries:
  assumes "rotates dv r b1"
    and "recordFails e (length (streams t) + failedRecords t)"
    and "callback e dv b1 (r, t) = (r1, t1)"
  shows "log t1 = log t" and "currentStream r1 = None" and "rotates dv r1 b2"
proof -
  note f = callback_failed [OF assms]
  show "log t1 = log t" by (rule f(2))
  show "currentStream r1 = None" using f(1) by simp
  then show "rotates dv r1 b2" by (simp add: rotates_def)
qed

lemma failed_header_keeps_stream:
  assumes "rotates dv r b1"
    and "\<not> recordFails e (length (streams t) + failedRecords t)"
    and "sendFails e (length (streams t)) 0"
    and "callback e dv b1 (r, t) = (r1, t1)"
    and "\<not> rotates dv r1 b2"
    and "callback e dv b2 (r1, t1) = (r2, t2)"
  shows "currentStream r1 = Some (length (streams t))"
    and "log t1 = log t @ [[(headerRequest r, False)]]"
    and "log t2 = log t @ [[(headerRequest r, False),
        (sampleRequest b2, \<not> sendFails e (length (streams t)) 1)]]"
proof -
  note d = callback_dropped [OF assms(1-4)]
  show cs: "currentStream r1 = Some (length (streams t))" using d(1) by simp
  show l1: "log t1 = log t @ [[(headerRequest r, False)]]" by (rule d(2))
  have len: "length (log t) = length (streams t)" by (simp add: log_def)
  have "length (log t1) = Suc (length (streams t))" using l1 len by simp
  then have lt: "length (streams t) < length (streams t1)" by (simp add: log_def)
  note k = callback_keep [OF assms(5,6)]
  have "log t2 = (log t1)[length (streams t) := log t1 ! length (streams t)
      @ [(sampleRequest b2, \<not> sendFails e (length (streams t))
            (length (log t1 ! length (streams t))))]]"
    using k(2) cs log_Send [OF lt, of e "sampleRequest b2"] by simp
  then show "log t2 = log t @ [[(headerRequest r, False),
        (sampleRequest b2, \<not> sendFails e (length (streams t)) 1)]]"
    by (simp add: l1 nth_append len [symmetric])
qed

text \<open>
  Claim C6 at a failing input. The first stream opens and the header send on it
  fails. The first buffer is dropped, but the recorder keeps the stream: the
  second buffer opens nothing and sends no header. When the later sends succeed
  it goes out as samples on the stream whose header was not delivered; when the
  stream is dead, so that every send on it fails, it is lost as well, and
  \<open>client.Record\<close> has still been called once only.
\<close>

theorem header_send_failure_keeps_stream:
  "currentStream (fst (feed headerLost (New (2 * Second) 1 (Fin 11025)) [[Fin 1]])) = Some 0
   \<and> log (snd (feed headerLost (New (2 * Second) 1 (Fin 11025)) [[Fin 1]]))
       = [[(headerRequest (New (2 * Second) 1 (Fin 11025)), False)]]
   \<and> log (snd (feed headerLost (New (2 * Second) 1 (Fin 11025)) [[Fin 1], [Fin 2]]))
       = [[(headerRequest (New (2 * Second) 1 (Fin 11025)), False),
           (sampleRequest [Fin 2], True)]]
   \<and> currentStream (fst (feed streamZeroDead (New (2 * Second) 1 (Fin 11025)) [[Fin 1]]))
       = Some 0
   \<and> log (snd (feed streamZeroDead (New (2 * Second) 1 (Fin 11025)) [[Fin 1], [Fin 2]]))
       = [[(headerRequest (New (2 * Second) 1 (Fin 11025)), False),
           (sampleRequest [Fin 2], False)]]
   \<and> recordCalls (snd (feed streamZeroDead (New (2 * Second) 1 (Fin 11025))
         [[Fin 1], [Fin 2]])) = 1"
  by code_simp

section \<open>Rotation\<close>

lemma divisor_mono_11025: "divisor (New m 1 (Fin 11025)) = Fin 11025"
  by (simp add: divisor_def New_def) code_simp

lemma projected_11025:
  "projected (Fin 11025) 11025 = 1000000000"
  "projected (Fin 11025) 22050 = 2000000000"
  "projected (Fin 11025) 33075 = 3000000000"
  by code_simp+

lemma sint_vals:
  "sint (2 * Second) = 2000000000"
  "sint (1000000000 :: int64) = 1000000000"
  "sint (2000000000 :: int64) = 2000000000"
  "sint (3000000000 :: int64) = 3000000000"
  by (simp_all add: Second_def)

lemma feed_snoc: "feed e r (bufs @ [b]) = callback e (divisor r) b (feed e r bufs)"
  by (simp add: feed_def run_snoc)

lemma feed_Nil: "feed e r [] = (r, noTransport)"
  by (simp add: feed_def run_Nil)

lemma holdsLast_feed: "currentStream r = None \<Longrightarrow> holdsLast (feed e r bufs)"
  by (simp add: feed_def holdsLast_run)

lemma maxLength_perform:
  assumes "holdsLast (r, t)" and "perform e dv (r, t) c = (r', t')"
  shows "maxLength r' = maxLength r"
  using assms by (cases rule: perform_cases) simp_all

lemma maxLength_run:
  assumes "currentStream r = None"
  shows "maxLength (fst (run e r cs)) = maxLength r"
proof (induction cs rule: rev_induct)
  case Nil
  show ?case by (simp add: run_Nil)
next
  case (snoc c cs)
  obtain r1 t1 where st: "run e r cs = (r1, t1)" by (cases "run e r cs")
  obtain r2 t2 where st2: "perform e (divisor r) (r1, t1) c = (r2, t2)"
    by (cases "perform e (divisor r) (r1, t1) c")
  have inv: "holdsLast (r1, t1)" using holdsLast_run [OF assms, of e cs] st by simp
  from maxLength_perform [OF inv st2] snoc st show ?case by (simp add: run_snoc st2)
qed

lemma headerRequest_feed:
  "currentStream r = None \<Longrightarrow> headerRequest (fst (feed e r bufs)) = headerRequest r"
  using wellHeaded_run [of r e "map Buffer bufs"] by (simp add: feed_def)

text \<open>One more buffer, when every open and every send succeeds.\<close>

lemma feed_keeps:
  assumes ok: "allSucceed e" and init: "currentStream r = None"
    and held: "currentStream (fst (feed e r bufs)) = Some s"
    and fits: "sint (projected (divisor r) (currentFrames (fst (feed e r bufs)) + of_nat (length b)))
        \<le> sint (maxLength r)"
  shows "currentStream (fst (feed e r (bufs @ [b]))) = Some s"
    and "currentFrames (fst (feed e r (bufs @ [b])))
        = currentFrames (fst (feed e r bufs)) + of_nat (length b)"
    and "log (snd (feed e r (bufs @ [b])))
        = butlast (log (snd (feed e r bufs)))
          @ [last (log (snd (feed e r bufs))) @ [(sampleRequest b, True)]]"
proof -
  obtain r1 t1 where st: "feed e r bufs = (r1, t1)" by (cases "feed e r bufs")
  obtain r2 t2 where st2: "perform e (divisor r) (r1, t1) (Buffer b) = (r2, t2)"
    by (cases "perform e (divisor r) (r1, t1) (Buffer b)")
  have inv: "holdsLast (r1, t1)" using holdsLast_feed [OF init, of e bufs] st by simp
  have ml: "maxLength r1 = maxLength r"
    using maxLength_run [OF init, of e "map Buffer bufs"] st by (simp add: feed_def)
  have nrot: "\<not> rotates (divisor r) r1 b"
    using held fits st ml by (simp add: rotates_def)
  have eq: "feed e r (bufs @ [b]) = (r2, t2)" using st st2 by (simp add: feed_snoc)
  from inv st2 have "currentStream r2 = Some s
      \<and> currentFrames r2 = currentFrames r1 + of_nat (length b)
      \<and> log t2 = butlast (log t1) @ [last (log t1) @ [(sampleRequest b, True)]]"
  proof (cases rule: perform_cases)
    case (keep b' s')
    with held st ok show ?thesis by (simp add: allSucceed_def)
  qed (use nrot in simp_all)
  then show "currentStream (fst (feed e r (bufs @ [b]))) = Some s"
    and "currentFrames (fst (feed e r (bufs @ [b])))
        = currentFrames (fst (feed e r bufs)) + of_nat (length b)"
    and "log (snd (feed e r (bufs @ [b])))
        = butlast (log (snd (feed e r bufs)))
          @ [last (log (snd (feed e r bufs))) @ [(sampleRequest b, True)]]"
    by (simp_all add: eq st)
qed

lemma feed_rotates:
  assumes ok: "allSucceed e" and init: "currentStream r = None"
    and rot: "currentStream (fst (feed e r bufs)) = None
        \<or> sint (maxLength r)
          < sint (projected (divisor r) (currentFrames (fst (feed e r bufs)) + of_nat (length b)))"
  shows "currentStream (fst (feed e r (bufs @ [b]))) = Some (length (log (snd (feed e r bufs))))"
    and "currentFrames (fst (feed e r (bufs @ [b]))) = of_nat (length b)"
    and "log (snd (feed e r (bufs @ [b])))
        = log (snd (feed e r bufs)) @ [[(headerRequest r, True), (sampleRequest b, True)]]"
proof -
  obtain r1 t1 where st: "feed e r bufs = (r1, t1)" by (cases "feed e r bufs")
  obtain r2 t2 where st2: "perform e (divisor r) (r1, t1) (Buffer b) = (r2, t2)"
    by (cases "perform e (divisor r) (r1, t1) (Buffer b)")
  have inv: "holdsLast (r1, t1)" using holdsLast_feed [OF init, of e bufs] st by simp
  have ml: "maxLength r1 = maxLength r"
    using maxLength_run [OF init, of e "map Buffer bufs"] st by (simp add: feed_def)
  have hr: "headerRequest r1 = headerRequest r"
    using headerRequest_feed [OF init, of e bufs] st by simp
  have isrot: "rotates (divisor r) r1 b"
    using rot st ml by (simp add: rotates_def)
  have eq: "feed e r (bufs @ [b]) = (r2, t2)" using st st2 by (simp add: feed_snoc)
  from inv st2 have "currentStream r2 = Some (length (log t1))
      \<and> currentFrames r2 = of_nat (length b)
      \<and> log t2 = log t1 @ [[(headerRequest r, True), (sampleRequest b, True)]]"
  proof (cases rule: perform_cases)
    case (rotated b')
    with ok hr show ?thesis by (simp add: allSucceed_def)
  qed (use isrot ok in \<open>simp_all add: allSucceed_def\<close>)
  then show "currentStream (fst (feed e r (bufs @ [b]))) = Some (length (log (snd (feed e r bufs))))"
    and "currentFrames (fst (feed e r (bufs @ [b]))) = of_nat (length b)"
    and "log (snd (feed e r (bufs @ [b])))
        = log (snd (feed e r bufs)) @ [[(headerRequest r, True), (sampleRequest b, True)]]"
    by (simp_all add: eq st)
qed

lemma five_seconds:
  assumes ok: "allSucceed e"
    and len: "length b1 = 11025" "length b2 = 11025" "length b3 = 11025"
      "length b4 = 11025" "length b5 = 11025"
  shows "log (snd (feed e (New (2 * Second) 1 (Fin 11025)) [b1, b2, b3, b4, b5]))
    = [[(headerRequest (New (2 * Second) 1 (Fin 11025)), True),
        (sampleRequest b1, True), (sampleRequest b2, True)],
       [(headerRequest (New (2 * Second) 1 (Fin 11025)), True),
        (sampleRequest b3, True), (sampleRequest b4, True)],
       [(headerRequest (New (2 * Second) 1 (Fin 11025)), True),
        (sampleRequest b5, True)]]"
proof -
  define r where "r = New (2 * Second) 1 (Fin 11025)"
  have init: "currentStream r = None" by (simp add: r_def New_def)
  have dv: "divisor r = Fin 11025" by (simp add: r_def divisor_mono_11025)
  have ml: "sint (maxLength r) = 2000000000" by (simp add: r_def New_def sint_vals)
  note facts = dv ml len projected_11025 sint_vals
  have 0: "currentStream (fst (feed e r [])) = None" "log (snd (feed e r [])) = []"
    by (simp_all add: feed_Nil init noTransport_def log_def)
  have 1: "currentStream (fst (feed e r [b1])) = Some 0"
    "currentFrames (fst (feed e r [b1])) = 11025"
    "log (snd (feed e r [b1])) = [[(headerRequest r, True), (sampleRequest b1, True)]]"
    using feed_rotates [OF ok init, of "[]" b1] 0 by (simp_all add: facts)
  have 2: "currentStream (fst (feed e r [b1, b2])) = Some 0"
    "currentFrames (fst (feed e r [b1, b2])) = 22050"
    "log (snd (feed e r [b1, b2]))
      = [[(headerRequest r, True), (sampleRequest b1, True), (sampleRequest b2, True)]]"
    using feed_keeps [OF ok init, of "[b1]" 0 b2] 1 by (simp_all add: facts)
  have 3: "currentStream (fst (feed e r [b1, b2, b3])) = Some 1"
    "currentFrames (fst (feed e r [b1, b2, b3])) = 11025"
    "log (snd (feed e r [b1, b2, b3]))
      = [[(headerRequest r, True), (sampleRequest b1, True), (sampleRequest b2, True)],
         [(headerRequest r, True), (sampleRequest b3, True)]]"
    using feed_rotates [OF ok init, of "[b1, b2]" b3] 2 by (simp_all add: facts)
  have 4: "currentStream (fst (feed e r [b1, b2, b3, b4])) = Some 1"
    "currentFrames (fst (feed e r [b1, b2, b3, b4])) = 22050"
    "log (snd (feed e r [b1, b2, b3, b4]))
      = [[(headerRequest r, True), (sampleRequest b1, True), (sampleRequest b2, True)],
         [(headerRequest r, True), (sampleRequest b3, True), (sampleRequest b4, True)]]"
    using feed_keeps [OF ok init, of "[b1, b2, b3]" 1 b4] 3 by (simp_all add: facts)
  have 5: "log (snd (feed e r [b1, b2, b3, b4, b5]))
      = [[(headerRequest r, True), (sampleRequest b1, True), (sampleRequest b2, True)],
         [(headerRequest r, True), (sampleRequest b3, True), (sampleRequest b4, True)],
         [(headerRequest r, True), (sampleRequest b5, True)]]"
    using feed_rotates [OF ok init, of "[b1, b2, b3, b4]" b5] 4 by (simp_all add: facts)
  then show ?thesis by (simp add: r_def)
qed

lemma length_oneSecond: "length (oneSecond v) = 11025"
  by (simp add: oneSecond_def)

lemma callback_keep_calls:
  assumes "\<not> rotates dv r b"
  shows "recordCalls (snd (callback e dv b (r, t))) = recordCalls t"
proof -
  obtain r' t' where cb: "callback e dv b (r, t) = (r', t')" by (cases "callback e dv b (r, t)")
  from callback_keep(2) [OF assms cb] show ?thesis
    by (simp add: cb recordCalls_def len_Send failed_Send)
qed

lemma callback_boundary:
  assumes "currentStream r = Some s"
    and "projected dv (currentFrames r + of_nat (length b)) = maxLength r"
  shows "callback e dv b (r, t)
    = (r\<lparr>currentFrames := currentFrames r + of_nat (length b)\<rparr>,
       snd (Send e s (sampleRequest b) t))"
proof -
  have nrot: "\<not> rotates dv r b" using assms by (simp add: rotates_def)
  obtain r' t' where cb: "callback e dv b (r, t) = (r', t')" by (cases "callback e dv b (r, t)")
  from callback_keep [OF nrot cb] assms(1) show ?thesis by (simp add: cb)
qed

text \<open>
  Claim C2. A buffer whose projected duration equals \<open>maxLength\<close> exactly is sent
  on the current stream and nothing is opened. A call of the callback calls
  \<open>client.Record\<close> only if no stream is held or the projected duration is
  strictly greater than \<open>maxLength\<close>. With a chunk length of two seconds, mono
  audio at 11025 Hz and five buffers of one second each, the recorder opens three
  streams: the first carries the header and buffers one and two, the second the
  header and buffers three and four, the third the header and buffer five.
\<close>

theorem rotation_boundary:
  "(currentStream r = Some s
      \<and> projected dv (currentFrames r + of_nat (length b)) = maxLength r \<longrightarrow>
    callback e dv b (r, t)
      = (r\<lparr>currentFrames := currentFrames r + of_nat (length b)\<rparr>,
         snd (Send e s (sampleRequest b) t)))
   \<and> (recordCalls (snd (callback e dv b (r, t))) \<noteq> recordCalls t \<longrightarrow>
        currentStream r = None
        \<or> sint (maxLength r) < sint (projected dv (currentFrames r + of_nat (length b))))
   \<and> (allSucceed e \<and> length b1 = 11025 \<and> length b2 = 11025 \<and> length b3 = 11025
        \<and> length b4 = 11025 \<and> length b5 = 11025 \<longrightarrow>
      log (snd (feed e (New (2 * Second) 1 (Fin 11025)) [b1, b2, b3, b4, b5]))
        = [[(headerRequest (New (2 * Second) 1 (Fin 11025)), True),
            (sampleRequest b1, True), (sampleRequest b2, True)],
           [(headerRequest (New (2 * Second) 1 (Fin 11025)), True),
            (sampleRequest b3, True), (sampleRequest b4, True)],
           [(headerRequest (New (2 * Second) 1 (Fin 11025)), True),
            (sampleRequest b5, True)]])"
proof (intro conjI impI)
  assume "currentStream r = Some s
      \<and> projected dv (currentFrames r + of_nat (length b)) = maxLength r"
  then show "callback e dv b (r, t)
      = (r\<lparr>currentFrames := currentFrames r + of_nat (length b)\<rparr>,
         snd (Send e s (sampleRequest b) t))"
    by (simp add: callback_boundary)
next
  assume "recordCalls (snd (callback e dv b (r, t))) \<noteq> recordCalls t"
  then have "rotates dv r b" using callback_keep_calls [of dv r b e t] by blast
  then show "currentStream r = None
        \<or> sint (maxLength r) < sint (projected dv (currentFrames r + of_nat (length b)))"
    by (simp add: rotates_def)
next
  assume "allSucceed e \<and> length b1 = 11025 \<and> length b2 = 11025 \<and> length b3 = 11025
        \<and> length b4 = 11025 \<and> length b5 = 11025"
  then show "log (snd (feed e (New (2 * Second) 1 (Fin 11025)) [b1, b2, b3, b4, b5]))
        = [[(headerRequest (New (2 * Second) 1 (Fin 11025)), True),
            (sampleRequest b1, True), (sampleRequest b2, True)],
           [(headerRequest (New (2 * Second) 1 (Fin 11025)), True),
            (sampleRequest b3, True), (sampleRequest b4, True)],
           [(headerRequest (New (2 * Second) 1 (Fin 11025)), True),
            (sampleRequest b5, True)]]"
    by (simp add: five_seconds)
qed

lemma allSucceed_reliable: "allSucceed reliable"
  by (simp add: allSucceed_def reliable_def)

lemma after_one_second:
  "currentStream (fst (feed reliable mono11025 [oneSecond 0])) = Some 0"
  "currentFrames (fst (feed reliable mono11025 [oneSecond 0])) = 11025"
  "maxLength (fst (feed reliable mono11025 [oneSecond 0])) = 2000000000"
proof -
  have init: "currentStream mono11025 = None" by (simp add: mono11025_def New_def)
  have 0: "currentStream (fst (feed reliable mono11025 [])) = None"
    "log (snd (feed reliable mono11025 [])) = []"
    by (simp_all add: feed_Nil init noTransport_def log_def)
  show "currentStream (fst (feed reliable mono11025 [oneSecond 0])) = Some 0"
    "currentFrames (fst (feed reliable mono11025 [oneSecond 0])) = 11025"
    using feed_rotates [OF allSucceed_reliable init, of "[]" "oneSecond 0"] 0
    by (simp_all add: length_oneSecond)
  show "maxLength (fst (feed reliable mono11025 [oneSecond 0])) = 2000000000"
    using maxLength_run [OF init, of reliable "[Buffer (oneSecond 0)]"]
    by (simp add: feed_def mono11025_def New_def Second_def)
qed

lemma first_buffer_opens:
  "recordCalls (snd (callback reliable (Fin 11025) [Fin 1] (mono11025, noTransport))) = 1"
  "recordCalls noTransport = 0"
  "currentStream mono11025 = None"
  by code_simp+

theorem rotation_boundary_witness:
  "(currentStream (fst (feed reliable mono11025 [oneSecond 0])) = Some 0
    \<and> projected (Fin 11025) (currentFrames (fst (feed reliable mono11025 [oneSecond 0]))
          + of_nat (length (oneSecond 10)))
        = maxLength (fst (feed reliable mono11025 [oneSecond 0]))
    \<and> callback reliable (Fin 11025) (oneSecond 10) (feed reliable mono11025 [oneSecond 0])
        = ((fst (feed reliable mono11025 [oneSecond 0]))\<lparr>currentFrames := 22050\<rparr>,
           snd (Send reliable 0 (sampleRequest (oneSecond 10))
                  (snd (feed reliable mono11025 [oneSecond 0])))))
   \<and> (recordCalls (snd (callback reliable (Fin 11025) [Fin 1] (mono11025, noTransport)))
        \<noteq> recordCalls noTransport
      \<and> currentStream mono11025 = None)
   \<and> (allSucceed reliable \<and> length (oneSecond 0) = 11025
      \<and> log (snd (feed reliable mono11025
            [oneSecond 0, oneSecond 10, oneSecond 100, oneSecond 200, oneSecond 300]))
        = [[(headerRequest mono11025, True),
            (sampleRequest (oneSecond 0), True), (sampleRequest (oneSecond 10), True)],
           [(headerRequest mono11025, True),
            (sampleRequest (oneSecond 100), True), (sampleRequest (oneSecond 200), True)],
           [(headerRequest mono11025, True),
            (sampleRequest (oneSecond 300), True)]])"
  using rotation_boundary [of "fst (feed reliable mono11025 [oneSecond 0])" 0 "Fin 11025"
      "oneSecond 10" reliable "snd (feed reliable mono11025 [oneSecond 0])"
      "oneSecond 0" "oneSecond 10" "oneSecond 100" "oneSecond 200" "oneSecond 300"]
    rotation_boundary [of mono11025 0 "Fin 11025" "[Fin 1]" reliable noTransport
      "oneSecond 0" "oneSecond 10" "oneSecond 100" "oneSecond 200" "oneSecond 300"]
  by (simp add: after_one_second length_oneSecond projected_11025 first_buffer_opens
      allSucceed_reliable mono11025_def [symmetric])

section \<open>The number of streams\<close>








section \<open>Sequence numbers\<close>

lemma newRecording_numClients:
  "numClients (fst (snd (newRecording e c r (s, fs)))) = numClients s + 1"
  by (simp add: newRecording_def Let_def split: prod.splits)

lemma newRecording_prefix:
  "prefix (fst (snd (newRecording e c r (s, fs)))) = prefix s"
  by (simp add: newRecording_def Let_def split: prod.splits)

lemma newRecording_requested:
  "requestedSeq (snd (snd (newRecording e c r (s, fs)))) = requestedSeq fs @ [numClients s]"
  by (simp add: newRecording_def Let_def sndfileOpen_def requestedSeq_def split: prod.splits)

lemma newRecording_created:
  "createdSeq (snd (snd (newRecording e c r (s, fs))))
     = createdSeq fs @ (if openFails e (length (opens fs)) then [] else [numClients s])"
  by (simp add: newRecording_def Let_def sndfileOpen_def createdSeq_def split: prod.splits)

lemma newRecordings_numClients:
  "numClients (fst (newRecordings e as (s, fs))) = numClients s + of_nat (length as)"
proof (induction as arbitrary: s fs)
  case Nil
  show ?case by simp
next
  case (Cons a as)
  obtain c r where a: "a = (c, r)" by (cases a)
  obtain s1 fs1 where st: "snd (newRecording e c r (s, fs)) = (s1, fs1)"
    by (cases "snd (newRecording e c r (s, fs))")
  have "numClients s1 = numClients s + 1"
    using newRecording_numClients [of e c r s fs] st by simp
  with Cons [of s1 fs1] show ?case by (simp add: a st)
qed

lemma newRecordings_requested:
  "requestedSeq (snd (newRecordings e as (s, fs)))
     = requestedSeq fs @ map (\<lambda>i. numClients s + of_nat i) [0..<length as]"
proof (induction as arbitrary: s fs)
  case Nil
  show ?case by simp
next
  case (Cons a as)
  obtain c r where a: "a = (c, r)" by (cases a)
  obtain s1 fs1 where st: "snd (newRecording e c r (s, fs)) = (s1, fs1)"
    by (cases "snd (newRecording e c r (s, fs))")
  have n: "numClients s1 = numClients s + 1"
    using newRecording_numClients [of e c r s fs] st by simp
  have rq: "requestedSeq fs1 = requestedSeq fs @ [numClients s]"
    using newRecording_requested [of e c r s fs] st by simp
  have "map (\<lambda>i. numClients s + of_nat i) [0..<length (a # as)]
      = numClients s # map (\<lambda>i. numClients s + 1 + of_nat i) [0..<length as]"
    by (simp add: upt_conv_Cons map_Suc_upt [symmetric] del: upt_Suc)
  with Cons [of s1 fs1] show ?case by (simp add: a st n rq)
qed

lemma sint_add_nat:
  fixes a :: int64
  assumes "sint a + int i < 2 ^ 63"
  shows "sint (a + of_nat i) = sint a + int i"
proof -
  have lo: "- (2 ^ 63) \<le> sint a + int i" using sint_ge [of a] by simp
  have "a + of_nat i = word_of_int (sint a + int i)" by simp
  then have "sint (a + of_nat i) = signed_take_bit 63 (sint a + int i)"
    by (simp only: sint_sbintrunc') simp
  also have "\<dots> = sint a + int i"
    using assms lo by (intro signed_take_bit_int_eq_self) simp_all
  finally show ?thesis .
qed

lemma requested_noDisk:
  "requestedSeq (snd (newRecordings e as (s, noDisk)))
    = map (\<lambda>i. numClients s + of_nat i) [0..<length as]"
proof -
  have "requestedSeq noDisk = []" by (simp add: requestedSeq_def noDisk_def)
  with newRecordings_requested [of e as s noDisk] show ?thesis by simp
qed

lemma requested_increasing:
  assumes "sint (numClients s) + int (length as) \<le> 2 ^ 63"
  shows "map sint (requestedSeq (snd (newRecordings e as (s, noDisk))))
    = map (\<lambda>i. sint (numClients s) + int i) [0..<length as]"
proof -
  have "sint (numClients s + of_nat i) = sint (numClients s) + int i" if "i < length as" for i
    using that assms by (intro sint_add_nat) simp
  then show ?thesis by (simp add: requested_noDisk)
qed

lemma sorted_offsets: "sorted_wrt (<) (map (\<lambda>i. (a::int) + int i) [0..<n])"
  by (simp add: sorted_wrt_map sorted_wrt_iff_nth_less)

lemma createdSeq_filter:
  "map sint (createdSeq fs)
    = map (\<lambda>(nm, sfi, ok). sint (nameSeq nm)) (filter (\<lambda>(nm, sfi, ok). ok) (opens fs))"
  by (simp add: createdSeq_def case_prod_unfold comp_def)

lemma requestedSeq_map:
  "map sint (requestedSeq fs) = map (\<lambda>(nm, sfi, ok). sint (nameSeq nm)) (opens fs)"
  by (simp add: requestedSeq_def case_prod_unfold comp_def)

lemma sorted_wrt_map_filter:
  "sorted_wrt R (map f xs) \<Longrightarrow> sorted_wrt R (map f (filter p xs))"
  by (induction xs) auto

lemma created_sorted:
  "sorted_wrt (<) (map sint (requestedSeq fs)) \<Longrightarrow> sorted_wrt (<) (map sint (createdSeq fs))"
  unfolding createdSeq_filter requestedSeq_map by (rule sorted_wrt_map_filter)

lemma strict_distinct:
  fixes ws :: "int64 list"
  assumes "sorted_wrt (<) (map sint ws)"
  shows "distinct ws"
proof -
  from assms have "distinct (map sint ws)" by (simp add: strict_sorted_iff)
  then show ?thesis by (simp add: distinct_map)
qed

text \<open>
  Claim C10. Every call of \<open>newRecording\<close> adds one to \<open>numClients\<close>, whether
  or not the file could be opened. Over a sequence of calls on one server value
  the sequence numbers of the generated file names are strictly increasing, hence
  distinct, and so are those of the files created, which need not be contiguous.
  The counter is a machine integer: the statement is for runs that stay below its
  largest value.
\<close>

theorem sequence_numbers:
  assumes "sint (numClients s) + int (length as) \<le> 2 ^ 63"
  shows "numClients (fst (snd (newRecording e c r (s, fs)))) = numClients s + 1
    \<and> numClients (fst (newRecordings e as (s, noDisk))) = numClients s + of_nat (length as)
    \<and> sorted_wrt (<) (map sint (requestedSeq (snd (newRecordings e as (s, noDisk)))))
    \<and> distinct (requestedSeq (snd (newRecordings e as (s, noDisk))))
    \<and> sorted_wrt (<) (map sint (createdSeq (snd (newRecordings e as (s, noDisk)))))
    \<and> distinct (createdSeq (snd (newRecordings e as (s, noDisk))))"
proof -
  have inc: "sorted_wrt (<) (map sint (requestedSeq (snd (newRecordings e as (s, noDisk)))))"
    by (simp only: requested_increasing [OF assms] sorted_offsets)
  note cr = created_sorted [OF inc]
  from inc cr strict_distinct [OF inc] strict_distinct [OF cr]
  show ?thesis by (simp add: newRecording_numClients newRecordings_numClients)
qed

lemma three_recordings:
  "requestedSeq (snd (newRecordings secondOpenFails [(1, 11025), (1, 11025), (1, 11025)]
      (rec0, noDisk))) = [0, 1, 2]"
  "createdSeq (snd (newRecordings secondOpenFails [(1, 11025), (1, 11025), (1, 11025)]
      (rec0, noDisk))) = [0, 2]"
  "numClients (fst (newRecordings secondOpenFails [(1, 11025), (1, 11025), (1, 11025)]
      (rec0, noDisk))) = 3"
  "numClients rec0 = 0"
  by (simp_all add: newRecording_def sndfileOpen_def secondOpenFails_def rec0_def noDisk_def
      createdSeq_def requestedSeq_def Let_def)

theorem sequence_numbers_witness:
  "sint (numClients rec0) + int (length [(1 :: int32, 11025 :: int32), (1, 11025), (1, 11025)])
      \<le> 2 ^ 63
   \<and> numClients (fst (newRecordings secondOpenFails [(1, 11025), (1, 11025), (1, 11025)]
        (rec0, noDisk))) = 3
   \<and> sorted_wrt (<) (map sint [0, 1, 2 :: int64])
   \<and> distinct (createdSeq (snd (newRecordings secondOpenFails
        [(1, 11025), (1, 11025), (1, 11025)] (rec0, noDisk))))
   \<and> createdSeq (snd (newRecordings secondOpenFails [(1, 11025), (1, 11025), (1, 11025)]
        (rec0, noDisk))) = [0, 2]"
  using sequence_numbers [of rec0 "[(1, 11025), (1, 11025), (1, 11025)]" secondOpenFails
      1 11025 noDisk]
  by (simp add: three_recordings del: newRecordings.simps)

section \<open>Sessions of the server\<close>

lemma sameBut_refl: "sameBut f fs fs"
  by (simp add: sameBut_def)

lemma sameBut_trans: "sameBut f fs fs1 \<Longrightarrow> sameBut f fs1 fs2 \<Longrightarrow> sameBut f fs fs2"
  by (simp add: sameBut_def)

lemma WriteFrames_sameBut:
  assumes "f < length (files fs)"
  shows "sameBut f fs (snd (WriteFrames e f smp fs))"
  using assms by (simp add: WriteFrames_def Let_def sameBut_def)

lemma WriteFrames_err:
  "fst (WriteFrames e f smp fs) = None \<or> fst (WriteFrames e f smp fs) = Some WriteFramesFailed"
  by (simp add: WriteFrames_def Let_def)

lemma recvLoop_open:
  assumes "f < length (files fs)" and "recvLoop e ms (Some f) (s, fs) = (err, out, s', fs')"
  shows "out = Some f \<and> s' = s \<and> sameBut f fs fs'
    \<and> (err = None \<or> err = Some WriteFramesFailed)"
  using assms
proof (induction ms arbitrary: fs)
  case Nil
  then show ?case by (simp add: sameBut_refl)
next
  case (Cons m ms)
  show ?case
  proof (cases "0 < length (Sample m)")
    case False
    with Cons.prems have "recvLoop e ms (Some f) (s, fs) = (err, out, s', fs')" by simp
    from Cons.IH [OF Cons.prems(1) this] show ?thesis .
  next
    case True
    obtain werr fs1 where w: "WriteFrames e f (Sample m) fs = (werr, fs1)"
      by (cases "WriteFrames e f (Sample m) fs")
    have sb: "sameBut f fs fs1" using WriteFrames_sameBut [OF Cons.prems(1), of e "Sample m"] w by simp
    then have lt1: "f < length (files fs1)" using Cons.prems(1) by (simp add: sameBut_def)
    have we: "werr = None \<or> werr = Some WriteFramesFailed"
      using WriteFrames_err [of e f "Sample m" fs] w by simp
    show ?thesis
    proof (cases werr)
      case None
      with Cons.prems True w have "recvLoop e ms (Some f) (s, fs1) = (err, out, s', fs')" by simp
      from Cons.IH [OF lt1 this] sb show ?thesis by (auto intro: sameBut_trans)
    next
      case (Some x)
      with Cons.prems True w have "err = Some x" "out = Some f" "s' = s" "fs' = fs1" by simp_all
      with sb we Some show ?thesis by simp
    qed
  qed
qed

lemma recvLoop_open_ok:
  assumes "f < length (files fs)" and "\<forall>k. \<not> writeFails e f k"
  shows "recvLoop e ms (Some f) (s, fs)
    = (None, Some f, s,
       fs\<lparr>files := (files fs)[f := (files fs ! f)\<lparr>writes := writes (files fs ! f)
          @ map (\<lambda>x. (x, True)) (nonEmptySamples ms)\<rparr>]\<rparr>)"
  using assms(1)
proof (induction ms arbitrary: fs)
  case Nil
  then show ?case by (simp add: nonEmptySamples_def)
next
  case (Cons m ms)
  show ?case
  proof (cases "0 < length (Sample m)")
    case False
    then have "nonEmptySamples (m # ms) = nonEmptySamples ms" by (simp add: nonEmptySamples_def)
    with Cons False show ?thesis by simp
  next
    case True
    let ?fl = "files fs ! f"
    let ?fs1 = "fs\<lparr>files := (files fs)[f := ?fl\<lparr>writes := writes ?fl @ [(Sample m, True)]\<rparr>]\<rparr>"
    have w: "WriteFrames e f (Sample m) fs = (None, ?fs1)"
      using assms(2) by (simp add: WriteFrames_def Let_def)
    have lt1: "f < length (files ?fs1)" using Cons.prems by simp
    have ne: "nonEmptySamples (m # ms) = Sample m # nonEmptySamples ms"
      using True by (simp add: nonEmptySamples_def)
    have "recvLoop e (m # ms) (Some f) (s, fs) = recvLoop e ms (Some f) (s, ?fs1)"
      using True w by simp
    also note Cons.IH [OF lt1]
    finally show ?thesis using Cons.prems by (simp add: ne)
  qed
qed

lemma newRecording_ok:
  assumes "\<not> openFails e (length (opens fs))"
  shows "newRecording e (GetNumChannels (Header m)) (f32_to_int32 (GetSampleRate (Header m))) (s, fs)
    = (Inr (length (files fs)), s\<lparr>numClients := numClients s + 1\<rparr>, created e m (s, fs))"
  using assms
  by (simp add: newRecording_def sndfileOpen_def Let_def recordingName_def recordingInfo_def
      created_def)


lemma Record_Nil: "Record e [] (s, fs) = (None, s, fs)"
  by (simp add: Record_def)


lemma recvLoop_first:
  assumes "\<not> openFails e (length (opens fs))"
  shows "recvLoop e (m # ms) None (s, fs)
    = recvLoop e (m # ms) (Some (length (files fs)))
        (s\<lparr>numClients := numClients s + 1\<rparr>, created e m (s, fs))"
  by (simp add: newRecording_ok [OF assms])

lemma created_files:
  "files (created e m (s, fs)) = files fs
     @ [\<lparr>name = recordingName e s fs, info = recordingInfo m, writes = [], closings = []\<rparr>]"
  "opens (created e m (s, fs)) = opens fs @ [(recordingName e s fs, recordingInfo m, True)]"
  by (simp_all add: created_def)

lemma Record_ok:
  assumes ok: "\<not> openFails e (length (opens fs))"
    and loop: "recvLoop e (m # ms) (Some (length (files fs)))
        (s\<lparr>numClients := numClients s + 1\<rparr>, created e m (s, fs)) = (err, out, s', fs')"
  shows "Record e (m # ms) (s, fs) = (err, s', snd (sndfileClose e (length (files fs)) fs'))"
    and "sameBut (length (files fs)) (created e m (s, fs)) fs'"
    and "err = None \<or> err = Some WriteFramesFailed"
proof -
  have lt: "length (files fs) < length (files (created e m (s, fs)))"
    by (simp add: created_files)
  from recvLoop_open [OF lt loop]
  have out: "out = Some (length (files fs))"
    and sb: "sameBut (length (files fs)) (created e m (s, fs)) fs'"
    and er: "err = None \<or> err = Some WriteFramesFailed" by simp_all
  show "Record e (m # ms) (s, fs) = (err, s', snd (sndfileClose e (length (files fs)) fs'))"
    unfolding Record_def recvLoop_first [OF ok] loop using out by simp
  show "sameBut (length (files fs)) (created e m (s, fs)) fs'" by (rule sb)
  show "err = None \<or> err = Some WriteFramesFailed" by (rule er)
qed

lemma concat_nonEmpty: "concat (nonEmptySamples ms) = concat (map Sample ms)"
  by (induction ms) (simp_all add: nonEmptySamples_def)

lemma framesWritten_all:
  "writes fl = map (\<lambda>x. (x, True)) xs \<Longrightarrow> framesWritten fl = concat xs"
  by (simp add: framesWritten_def comp_def)

text \<open>
  Claim C3, as amended. A stream that delivers at least one message, whose file
  open succeeds and whose writes all succeed, creates exactly one file, at its
  first message. The writes to that file are the non-empty sample payloads of the
  messages in the order received, so the frames written are the concatenation of
  all payloads; a message with an empty payload causes no write. A stream that
  ends before its first message creates no file.
\<close>

theorem file_per_stream:
  assumes "\<not> openFails e (length (opens fs))"
    and "\<forall>k. \<not> writeFails e (length (files fs)) k"
  shows "fst (Record e (m # ms) (s, fs)) = None
    \<and> files (snd (snd (Record e (m # ms) (s, fs))))
      = files fs @ [\<lparr>name = recordingName e s fs, info = recordingInfo m,
            writes = map (\<lambda>x. (x, True)) (nonEmptySamples (m # ms)),
            closings = [\<not> closeFails e (length (files fs)) 0]\<rparr>]
    \<and> framesWritten (last (files (snd (snd (Record e (m # ms) (s, fs))))))
      = concat (map Sample (m # ms))
    \<and> files (snd (snd (Record e [] (s, fs)))) = files fs"
proof -
  let ?f = "length (files fs)"
  let ?s1 = "s\<lparr>numClients := numClients s + 1\<rparr>"
  let ?fs1 = "created e m (s, fs)"
  let ?new = "\<lparr>name = recordingName e s fs, info = recordingInfo m,
      writes = map (\<lambda>x. (x, True)) (nonEmptySamples (m # ms)), closings = []\<rparr>"
  have lt: "?f < length (files ?fs1)" by (simp add: created_files)
  have loop: "recvLoop e (m # ms) (Some ?f) (?s1, ?fs1)
      = (None, Some ?f, ?s1, ?fs1\<lparr>files := files fs @ [?new]\<rparr>)"
    unfolding recvLoop_open_ok [OF lt assms(2)] by (simp add: created_files)
  from Record_ok(1) [OF assms(1) loop]
  have rec: "Record e (m # ms) (s, fs)
      = (None, ?s1, snd (sndfileClose e ?f (?fs1\<lparr>files := files fs @ [?new]\<rparr>)))" .
  have fin: "files (snd (snd (Record e (m # ms) (s, fs))))
      = files fs @ [?new\<lparr>closings := [\<not> closeFails e ?f 0]\<rparr>]"
    by (simp add: rec sndfileClose_def Let_def)
  have "framesWritten (?new\<lparr>closings := [\<not> closeFails e ?f 0]\<rparr>) = concat (map Sample (m # ms))"
    by (simp add: framesWritten_all concat_nonEmpty del: list.map)
  with fin rec show ?thesis by (simp add: Record_Nil del: list.map)
qed

theorem file_per_stream_witness:
  "\<not> openFails fsReliable (length (opens noDisk))
   \<and> (\<forall>k. \<not> writeFails fsReliable (length (files noDisk)) k)
   \<and> fst (Record fsReliable
        [firstRequest, sampleRequest [Fin 1, Fin 2], sampleRequest [], sampleRequest [Fin 3]]
        (rec0, noDisk)) = None
   \<and> map writes (files (snd (snd (Record fsReliable
        [firstRequest, sampleRequest [Fin 1, Fin 2], sampleRequest [], sampleRequest [Fin 3]]
        (rec0, noDisk)))))
       = [[([Fin 1, Fin 2], True), ([Fin 3], True)]]
   \<and> framesWritten (last (files (snd (snd (Record fsReliable
        [firstRequest, sampleRequest [Fin 1, Fin 2], sampleRequest [], sampleRequest [Fin 3]]
        (rec0, noDisk)))))) = [Fin 1, Fin 2, Fin 3]"
  using file_per_stream [of fsReliable noDisk firstRequest
      "[sampleRequest [Fin 1, Fin 2], sampleRequest [], sampleRequest [Fin 3]]" rec0]
  by (simp add: fsReliable_def noDisk_def nonEmptySamples_def firstRequest_def sampleRequest_def
      framesWritten_def)

text \<open>
  Claim C3 as stated fails: a stream that ends before its first message is served
  without error and creates no file. Nor is there a file when the open fails,
  and a write that fails ends the session before the later payloads are written.
\<close>

theorem empty_stream_no_file:
  "fst (Record fsReliable [] (rec0, noDisk)) = None
   \<and> files (snd (snd (Record fsReliable [] (rec0, noDisk)))) = []
   \<and> fst (Record openRefused [firstRequest, sampleRequest [Fin 1]] (rec0, noDisk))
       = Some OpenFailed
   \<and> files (snd (snd (Record openRefused [firstRequest, sampleRequest [Fin 1]]
        (rec0, noDisk)))) = []
   \<and> fst (Record firstWriteFails
        [firstRequest, sampleRequest [Fin 1], sampleRequest [Fin 2]] (rec0, noDisk))
       = Some WriteFramesFailed
   \<and> map framesWritten (files (snd (snd (Record firstWriteFails
        [firstRequest, sampleRequest [Fin 1], sampleRequest [Fin 2]] (rec0, noDisk))))) = [[]]"
  by (simp add: Record_def newRecording_def sndfileOpen_def WriteFrames_def sndfileClose_def
      Let_def fsReliable_def openRefused_def firstWriteFails_def noDisk_def rec0_def
      firstRequest_def sampleRequest_def GetNumChannels_def GetSampleRate_def framesWritten_def)

lemma sndfileClose_eff:
  assumes "f < length (files fs)"
  shows "opens (snd (sndfileClose e f fs)) = opens fs"
    and "length (files (snd (sndfileClose e f fs))) = length (files fs)"
    and "closings (files (snd (sndfileClose e f fs)) ! f)
      = closings (files fs ! f) @ [\<not> closeFails e f (length (closings (files fs ! f)))]"
  using assms by (simp_all add: sndfileClose_def Let_def)

lemma sndfileClose_opens: "opens (snd (sndfileClose e f fs)) = opens fs"
  by (simp add: sndfileClose_def Let_def)

lemma sndfileClose_length: "length (files (snd (sndfileClose e f fs))) = length (files fs)"
  by (simp add: sndfileClose_def Let_def)

lemma Record_created:
  assumes ok: "\<not> openFails e (length (opens fs))"
  shows "opens (snd (snd (Record e (m # ms) (s, fs))))
      = opens fs @ [(recordingName e s fs, recordingInfo m, True)]"
    and "length (files (snd (snd (Record e (m # ms) (s, fs))))) = Suc (length (files fs))"
    and "closings (files (snd (snd (Record e (m # ms) (s, fs)))) ! length (files fs))
      = [\<not> closeFails e (length (files fs)) 0]"
    and "fst (Record e (m # ms) (s, fs)) = None
      \<or> fst (Record e (m # ms) (s, fs)) = Some WriteFramesFailed"
proof -
  let ?f = "length (files fs)"
  obtain err out s' fs' where loop: "recvLoop e (m # ms) (Some ?f)
        (s\<lparr>numClients := numClients s + 1\<rparr>, created e m (s, fs)) = (err, out, s', fs')"
    by (metis prod_cases4)
  note r = Record_ok [OF ok loop]
  from r(2) have op: "opens fs' = opens fs @ [(recordingName e s fs, recordingInfo m, True)]"
    and len: "length (files fs') = Suc ?f"
    and cl: "closings (files fs' ! ?f) = []"
    by (simp_all add: sameBut_def created_files)
  from len have lt: "?f < length (files fs')" by simp
  show "opens (snd (snd (Record e (m # ms) (s, fs))))
      = opens fs @ [(recordingName e s fs, recordingInfo m, True)]"
    by (simp add: r(1) sndfileClose_opens op)
  show "length (files (snd (snd (Record e (m # ms) (s, fs))))) = Suc ?f"
    by (simp add: r(1) sndfileClose_length len)
  show "closings (files (snd (snd (Record e (m # ms) (s, fs)))) ! ?f)
      = [\<not> closeFails e ?f 0]"
    by (simp add: r(1) sndfileClose_eff(3) [OF lt] cl)
  show "fst (Record e (m # ms) (s, fs)) = None
      \<or> fst (Record e (m # ms) (s, fs)) = Some WriteFramesFailed"
    using r(3) by (simp add: r(1))
qed




text \<open>
  Claim C9, as amended. When \<open>Record\<close> has created its file, the file is closed
  exactly once, on every way out of the session. The outcome of that close is
  discarded: \<open>Record\<close> returns no error when the receive loop ends, and the
  error of the write when a write fails.
\<close>

theorem deferred_close:
  assumes "\<not> openFails e (length (opens fs))"
  shows "closings (files (snd (snd (Record e (m # ms) (s, fs)))) ! length (files fs))
      = [\<not> closeFails e (length (files fs)) 0]
    \<and> (fst (Record e (m # ms) (s, fs)) = None
        \<or> fst (Record e (m # ms) (s, fs)) = Some WriteFramesFailed)
    \<and> ((\<forall>k. \<not> writeFails e (length (files fs)) k) \<longrightarrow>
        fst (Record e (m # ms) (s, fs)) = None)"
proof -
  have "fst (Record e (m # ms) (s, fs)) = None" if w: "\<forall>k. \<not> writeFails e (length (files fs)) k"
  proof -
    have lt: "length (files fs) < length (files (created e m (s, fs)))"
      by (simp add: created_files)
    from Record_ok(1) [OF assms recvLoop_open_ok [OF lt w]] show ?thesis by simp
  qed
  with Record_created(3,4) [OF assms, of m ms s] show ?thesis by blast
qed

theorem deferred_close_witness:
  "\<not> openFails closeBroken (length (opens noDisk))
   \<and> (\<forall>k. \<not> writeFails closeBroken (length (files noDisk)) k)
   \<and> closings (files (snd (snd
        (Record closeBroken [firstRequest, sampleRequest [Fin 1]] (rec0, noDisk)))) ! 0) = [False]
   \<and> fst (Record closeBroken [firstRequest, sampleRequest [Fin 1]] (rec0, noDisk)) = None"
  using deferred_close [of closeBroken noDisk firstRequest "[sampleRequest [Fin 1]]" rec0]
  by (simp add: closeBroken_def noDisk_def)

text \<open>
  Claim C9 as stated fails: the close of the file fails and \<open>Record\<close> returns no
  error.
\<close>

theorem close_error_discarded:
  "fst (Record closeBroken [firstRequest, sampleRequest [Fin 1]] (rec0, noDisk)) = None
   \<and> map closings (files (snd (snd
        (Record closeBroken [firstRequest, sampleRequest [Fin 1]] (rec0, noDisk))))) = [[False]]"
  by (simp add: Record_def newRecording_def sndfileOpen_def WriteFrames_def sndfileClose_def
      Let_def closeBroken_def noDisk_def rec0_def firstRequest_def sampleRequest_def)

end
